theory Spec2Isabelle
  imports Main "HOL-Library.Sublist"
begin

section \<open>Data model\<close>

text \<open>
  The development follows \<^verbatim>\<open>include/klee/ExecutionState.h\<close>,
  \<^verbatim>\<open>lib/Core/Executor.cpp\<close> and \<^verbatim>\<open>lib/Core/Searcher.cpp\<close>.
  Execution states live on the C++ heap and refer to each other through raw pointers
  (\<^verbatim>\<open>dependentState\<close>, \<^verbatim>\<open>recoveryState\<close>, \<^verbatim>\<open>originatingState\<close>), so a
  pointer is a natural number and the heap is a partial map from pointers to states.
  An \<^verbatim>\<open>assert\<close> that fails, a read outside a buffer, the end of a non-void
  function reached without \<^verbatim>\<open>return\<close>, a fatal error and a loop that never
  ends are values of the type \<open>error\<close>.
\<close>

type_synonym sid = nat

datatype error =
    AssertionFailed
  | OutOfBounds
  | NoReturnValue
  | NullPointer
  | FatalError
  | Unreachable
  | DoesNotReturn

text \<open>
  Expressions are built by the expression library, which the executor only consumes.
  The executor distinguishes constants from everything else
  (\<^verbatim>\<open>isa<ConstantExpr>\<close>), asks a constant for its value, and negates a condition with
  \<^verbatim>\<open>Expr::createIsZero\<close>, which folds constants.
\<close>

datatype expr =
    ConstantExpr nat
  | SymbolicExpr nat
  | IsZeroExpr expr

fun isConstantExpr :: "expr \<Rightarrow> bool" where
  "isConstantExpr (ConstantExpr n) = True"
| "isConstantExpr e = False"

fun createIsZero :: "expr \<Rightarrow> expr" where
  "createIsZero (ConstantExpr n) = ConstantExpr (if n = 0 then 1 else 0)"
| "createIsZero e = IsZeroExpr e"

record Snapshot =
  snap_state :: sid
  snap_f :: nat

record RecoveryInfo =
  loadInst :: nat
  loadAddr :: nat
  loadSize :: nat
  ri_f :: nat
  sliceId :: nat
  snapshot :: Snapshot
  snapshotIndex :: nat
  subId :: nat

record WrittenAddressInfo =
  maxSize :: nat
  wa_snapshotIndex :: nat

type_synonym AllocationRecord = "(nat \<times> nat) list"

type_synonym ValuesCache = "nat \<rightharpoonup> expr option"

type_synonym RecoveryCache = "(nat \<times> nat) \<rightharpoonup> ValuesCache"

text \<open>
  Modelled from the spec: the address space, whose implementation is not part of the
  sources at hand, ``maps memory objects to per-object byte stores'' with a
  copy-on-write \<^verbatim>\<open>getWriteable\<close>. A memory object is identified by a number and its
  store maps an offset to the value last written there.
\<close>

type_synonym ObjectState = "nat \<rightharpoonup> expr"

type_synonym AddressSpace = "nat \<rightharpoonup> ObjectState"

record ExecutionState =
  stateType :: nat
  suspendStatus :: bool
  snapshots :: "Snapshot list"
  recoveryState :: "sid option"
  blockingLoadStatus :: bool
  recoveredLoads :: "nat set"
  allocationRecord :: AllocationRecord
  guidingConstraints :: "expr list"
  writtenAddresses :: "nat \<rightharpoonup> WrittenAddressInfo"
  pendingRecoveryInfos :: "RecoveryInfo list"
  recoveryCache :: RecoveryCache
  exitInst :: nat
  dependentState :: "sid option"
  originatingState :: "sid option"
  recoveryInfo :: "RecoveryInfo option"
  guidingAllocationRecord :: AllocationRecord
  level :: nat
  priority :: nat
  pc :: nat
  prevPC :: nat
  addressSpace :: AddressSpace
  constraints :: "expr list"
  depth :: nat
  actDepth :: nat
  prefixes :: "(string \<times> nat) list"
  branchHist :: string
  forkDisabled :: bool

definition NORMAL_STATE :: nat where
  "NORMAL_STATE = 1"

definition RECOVERY_STATE :: nat where
  "RECOVERY_STATE = 2"

definition isNormalState :: "ExecutionState \<Rightarrow> bool" where
  "isNormalState st = odd (stateType st)"

definition isRecoveryState :: "ExecutionState \<Rightarrow> bool" where
  "isRecoveryState st = odd (stateType st div 2)"

definition isSuspended :: "ExecutionState \<Rightarrow> bool" where
  "isSuspended st = suspendStatus st"

section \<open>Prefix-guided branch selection\<close>

text \<open>
  A guiding prefix is a pair of a character buffer and a length. Reading
  \<^verbatim>\<open>first[depth]\<close> beyond the buffer is undefined in the source; the model reports it.
\<close>

definition charAt :: "string \<Rightarrow> nat \<Rightarrow> error + char" where
  "charAt s i = (if i < length s then Inr (s ! i) else Inl OutOfBounds)"

text \<open>\<^verbatim>\<open>ExecutionState::shallIRange\<close>: some prefix is longer than the current depth.\<close>

fun shallIRange_loop :: "nat \<Rightarrow> (string \<times> nat) list \<Rightarrow> bool" where
  "shallIRange_loop d [] = False"
| "shallIRange_loop d (p # ps) = (if d < snd p then True else shallIRange_loop d ps)"

definition shallIRange :: "ExecutionState \<Rightarrow> bool" where
  "shallIRange st =
     (if length (prefixes st) = 0 then False else shallIRange_loop (depth st) (prefixes st))"

text \<open>
  The loop of \<^verbatim>\<open>ExecutionState::branchToTake\<close> over \<^verbatim>\<open>prefixes[1..]\<close>: the answer is
  \<open>True\<close> as soon as a prefix differs from \<^verbatim>\<open>prefixes[0]\<close> at \<^verbatim>\<open>depth\<close>. The two inner
  tests of the source compare one character with both \<^verbatim>\<open>'2'\<close> and \<^verbatim>\<open>'3'\<close>, so
  their \<^verbatim>\<open>assert(false)\<close> is never reached.
\<close>

fun branchToTake_loop :: "string \<Rightarrow> nat \<Rightarrow> (string \<times> nat) list \<Rightarrow> error + bool" where
  "branchToTake_loop p0 d [] = Inr False"
| "branchToTake_loop p0 d (p # ps) =
     (case charAt (fst p) d of
        Inl e \<Rightarrow> Inl e
      | Inr cx \<Rightarrow>
          (case charAt p0 d of
             Inl e \<Rightarrow> Inl e
           | Inr c0 \<Rightarrow>
               if cx \<noteq> c0 then
                 (if cx = CHR ''2'' \<and> cx = CHR ''3'' then Inl AssertionFailed
                  else if c0 = CHR ''2'' \<and> c0 = CHR ''3'' then Inl AssertionFailed
                  else Inr True)
               else branchToTake_loop p0 d ps))"

text \<open>
  \<^verbatim>\<open>ExecutionState::branchToTake\<close>. The result is the returned integer (0 for true, 1 for
  false, 2 for fork) and the value left in the reference parameter
  \<^verbatim>\<open>forkAndSuspend\<close>. When no branch of the final chain applies, control reaches the
  end of the function, which has no \<^verbatim>\<open>return\<close> there.
\<close>

definition branchToTake :: "ExecutionState \<Rightarrow> bool \<Rightarrow> error + (nat \<times> bool)" where
  "branchToTake st forkAndSuspend =
     (case prefixes st of
        [] \<Rightarrow> Inl OutOfBounds
      | p0 # ps \<Rightarrow>
          if \<not> depth st < snd p0 then Inl AssertionFailed
          else
            (case branchToTake_loop (fst p0) (depth st) ps of
               Inl e \<Rightarrow> Inl e
             | Inr True \<Rightarrow> Inr (2, False)
             | Inr False \<Rightarrow>
                 (case charAt (fst p0) (depth st) of
                    Inl e \<Rightarrow> Inl e
                  | Inr c \<Rightarrow>
                      if c = CHR ''0'' then Inr (0, True)
                      else if c = CHR ''1'' then Inr (1, True)
                      else if c = CHR ''2'' then Inr (0, False)
                      else if c = CHR ''3'' then Inr (1, False)
                      else Inl NoReturnValue)))"

text \<open>
  A normal, resumed state with nothing recorded yet; the concrete states of the
  examples below are updates of it.
\<close>

definition blankState :: ExecutionState where
  "blankState =
     \<lparr> stateType = NORMAL_STATE, suspendStatus = False, snapshots = [],
       recoveryState = None, blockingLoadStatus = True, recoveredLoads = {},
       allocationRecord = [], guidingConstraints = [], writtenAddresses = Map.empty,
       pendingRecoveryInfos = [], recoveryCache = Map.empty, exitInst = 0,
       dependentState = None, originatingState = None, recoveryInfo = None,
       guidingAllocationRecord = [], level = 0, priority = 0, pc = 0, prevPC = 0,
       addressSpace = Map.empty, constraints = [], depth = 0, actDepth = 0,
       prefixes = [], branchHist = [], forkDisabled = False \<rparr>"

section \<open>The breadth-first searcher\<close>

text \<open>
  \<^verbatim>\<open>BFSSearcher\<close> of \<^verbatim>\<open>Searcher.cpp\<close>: the deque \<^verbatim>\<open>states\<close>, the map from a state to
  the depth it is filed under, the map from a depth to the deque of states of that
  depth, and \<^verbatim>\<open>currentMinDepth\<close>. The searcher reads \<^verbatim>\<open>current->actDepth\<close> from the
  heap; the model takes that reading as the function \<open>actDepthOf\<close>.
\<close>

record BFSSearcher =
  bfs_states :: "sid list"
  depthMap :: "sid \<rightharpoonup> nat"
  depthStatesMap :: "nat \<rightharpoonup> sid list"
  currentMinDepth :: nat

definition BFSSearcher_init :: BFSSearcher where
  "BFSSearcher_init =
     \<lparr> bfs_states = [], depthMap = Map.empty, depthStatesMap = Map.empty,
       currentMinDepth = 0 \<rparr>"

definition selectState :: "BFSSearcher \<Rightarrow> error + sid" where
  "selectState s =
     (case depthStatesMap s (currentMinDepth s) of
        None \<Rightarrow> Inl AssertionFailed
      | Some l \<Rightarrow> (case l of [] \<Rightarrow> Inl OutOfBounds | x # xs \<Rightarrow> Inr x))"

definition insertIntoDepthStateMap :: "(sid \<Rightarrow> nat) \<Rightarrow> BFSSearcher \<Rightarrow> sid \<Rightarrow> BFSSearcher" where
  "insertIntoDepthStateMap actDepthOf s current =
     (let sts = (if current \<in> set (bfs_states s) then bfs_states s
                 else bfs_states s @ [current]);
          d = actDepthOf current;
          cmd = (if dom (depthMap s) = {} then actDepthOf current else currentMinDepth s);
          dm = (depthMap s)(current \<mapsto> d)
      in case depthStatesMap s d of
           None \<Rightarrow>
             \<lparr> bfs_states = sts, depthMap = dm,
               depthStatesMap = (depthStatesMap s)(d \<mapsto> [current]),
               currentMinDepth = (if cmd > actDepthOf current then actDepthOf current else cmd) \<rparr>
         | Some listofStates \<Rightarrow>
             \<lparr> bfs_states = sts, depthMap = dm,
               depthStatesMap = (depthStatesMap s)(d \<mapsto> listofStates @ [current]),
               currentMinDepth = cmd \<rparr>)"

text \<open>
  The search for the next populated depth in \<^verbatim>\<open>removeFromDepthStateMap\<close>:
  \<^verbatim>\<open>while(depthStatesMap.find(tryDepth) == depthStatesMap.end()) tryDepth++;\<close>
  The loop has no bound, so it is a partial function: \<open>None\<close> when it never finds a
  populated depth. (The counter of the source is an \<^verbatim>\<open>int\<close>, whose overflow is undefined;
  the model counts in the natural numbers.)
\<close>

partial_function (option) nextDepth :: "(nat \<rightharpoonup> sid list) \<Rightarrow> nat \<Rightarrow> nat option" where
  "nextDepth m tryDepth = (if m tryDepth \<noteq> None then Some tryDepth else nextDepth m (Suc tryDepth))"

definition removeFromDepthStateMap :: "BFSSearcher \<Rightarrow> sid \<Rightarrow> error + BFSSearcher" where
  "removeFromDepthStateMap s current =
     (if current \<notin> set (bfs_states s) then Inl AssertionFailed
      else
        let sts = remove1 current (bfs_states s);
            oldDepth = (case depthMap s current of None \<Rightarrow> 0 | Some d \<Rightarrow> d)
        in case depthStatesMap s oldDepth of
             None \<Rightarrow> Inl AssertionFailed
           | Some l \<Rightarrow>
               if current \<notin> set l then Inl AssertionFailed
               else
                 let listofStates = remove1 current l in
                 if length listofStates = 0 then
                   (let dsm = (depthStatesMap s)(oldDepth := None) in
                    if oldDepth = currentMinDepth s then
                      (case nextDepth dsm (currentMinDepth s + 1) of
                         None \<Rightarrow> Inl DoesNotReturn
                       | Some tryDepth \<Rightarrow>
                           Inr \<lparr> bfs_states = sts, depthMap = (depthMap s)(current := None),
                                 depthStatesMap = dsm, currentMinDepth = tryDepth \<rparr>)
                    else
                      Inr \<lparr> bfs_states = sts, depthMap = (depthMap s)(current := None),
                            depthStatesMap = dsm, currentMinDepth = currentMinDepth s \<rparr>)
                 else
                   Inr \<lparr> bfs_states = sts, depthMap = (depthMap s)(current := None),
                         depthStatesMap = (depthStatesMap s)(oldDepth \<mapsto> listofStates),
                         currentMinDepth = currentMinDepth s \<rparr>)"

definition updateDepthStateMap ::
  "(sid \<Rightarrow> nat) \<Rightarrow> BFSSearcher \<Rightarrow> sid \<Rightarrow> nat \<Rightarrow> error + BFSSearcher" where
  "updateDepthStateMap actDepthOf s current oldDepth =
     (let newDepth = actDepthOf current in
      case depthStatesMap s oldDepth of
        None \<Rightarrow> Inl AssertionFailed
      | Some l \<Rightarrow>
          if current \<notin> set l then Inl AssertionFailed
          else
            let listofStates = remove1 current l;
                s1 = (if length listofStates = 0 then
                        s\<lparr> depthStatesMap := (depthStatesMap s)(oldDepth := None),
                           currentMinDepth :=
                             (if currentMinDepth s \<le> oldDepth then newDepth
                              else currentMinDepth s) \<rparr>
                      else s\<lparr> depthStatesMap := (depthStatesMap s)(oldDepth \<mapsto> listofStates) \<rparr>)
            in Inr (insertIntoDepthStateMap actDepthOf s1 current))"

fun removeStates :: "BFSSearcher \<Rightarrow> sid list \<Rightarrow> error + BFSSearcher" where
  "removeStates s [] = Inr s"
| "removeStates s (x # xs) =
     (case removeFromDepthStateMap s x of Inl e \<Rightarrow> Inl e | Inr s1 \<Rightarrow> removeStates s1 xs)"

fun insertStates :: "(sid \<Rightarrow> nat) \<Rightarrow> BFSSearcher \<Rightarrow> sid list \<Rightarrow> BFSSearcher" where
  "insertStates actDepthOf s [] = s"
| "insertStates actDepthOf s (x # xs) =
     insertStates actDepthOf (insertIntoDepthStateMap actDepthOf s x) xs"

text \<open>
  \<^verbatim>\<open>BFSSearcher::update(current, addedStates, removedStates)\<close>; \<open>None\<close> is the null
  pointer for \<^verbatim>\<open>current\<close>.
\<close>

definition BFSSearcher_update ::
  "(sid \<Rightarrow> nat) \<Rightarrow> BFSSearcher \<Rightarrow> sid option \<Rightarrow> sid list \<Rightarrow> sid list \<Rightarrow> error + BFSSearcher" where
  "BFSSearcher_update actDepthOf s current addedStates removedStates =
     (let r1 =
        (case current of
           None \<Rightarrow> Inr s
         | Some c \<Rightarrow>
             (case depthMap s c of
                None \<Rightarrow> Inr s
              | Some d \<Rightarrow>
                  if d \<noteq> actDepthOf c then
                    (case updateDepthStateMap actDepthOf s c d of
                       Inl e \<Rightarrow> Inl e
                     | Inr s1 \<Rightarrow> Inr (s1\<lparr> depthMap := (depthMap s1)(c \<mapsto> actDepthOf c) \<rparr>))
                  else Inr s))
      in case r1 of
           Inl e \<Rightarrow> Inl e
         | Inr s1 \<Rightarrow>
             (case removeStates s1 removedStates of
                Inl e \<Rightarrow> Inl e
              | Inr s2 \<Rightarrow> Inr (insertStates actDepthOf s2 addedStates)))"

section \<open>The executor\<close>

text \<open>
  The part of \<^verbatim>\<open>class Executor\<close> that forking, recovery and offloading read and write.
  \<^verbatim>\<open>states\<close> is a \<^verbatim>\<open>std::set\<close> of pointers, iterated in pointer order; the model
  keeps it as the list of its elements in that order. \<open>searcherStates\<close> are the states
  the searcher holds. \<open>heapNext\<close> is the pointer the next \<^verbatim>\<open>new ExecutionState\<close>
  returns. Counters are natural numbers: the 32-bit wrap of \<^verbatim>\<open>depth\<close> and
  \<^verbatim>\<open>stats::forks\<close> is out of reach of any run. The process tree, the path writers and
  the statistics of the interpreter handler are written by these functions and read by
  none of them; they are left out. The seed map is empty (no seeds were given), so
  \<^verbatim>\<open>isSeeding\<close> is false, and the static fork limits \<^verbatim>\<open>MaxStatic*Pct\<close> have their
  default 1, which skips the block that concretises the condition.
\<close>

datatype Validity = VTrue | VFalse | VUnknown

text \<open>
  \<^verbatim>\<open>PrefixTree\<close> of \<^verbatim>\<open>PrefixTree.cpp\<close>: a node has a left and a right child, either of
  which may be null. \<^verbatim>\<open>addToTree\<close> walks the path from the root, left at \<^verbatim>\<open>'0'\<close> and
  right at any other character, creating the nodes that are missing.
\<close>

datatype PrefixTree = Node "PrefixTree option" "PrefixTree option"


record Executor =
  heap :: "sid \<rightharpoonup> ExecutionState"
  heapNext :: sid
  states :: "sid list"
  addedStates :: "sid list"
  removedStates :: "sid list"
  suspendedStates :: "sid list"
  resumedStates :: "sid list"
  rangingSuspendedStates :: "sid list"
  nonRecoveryStates :: "sid set"
  searcherStates :: "sid list"
  prefixSuspendedStatesMap :: "string \<rightharpoonup> sid"
  prefixTree :: PrefixTree
  coreId :: nat
  haltExecution :: bool
  haltFromMaster :: bool
  ready2Offload :: bool
  waiting4OffloadReq :: bool
  replayPath :: "bool list option"
  replayPosition :: nat
  replayKTest :: bool
  forks :: nat
  MaxForks :: "nat option"
  MaxMemoryInhibit :: bool
  atMemoryLimit :: bool
  inhibitForking :: bool

definition deref :: "Executor \<Rightarrow> sid \<Rightarrow> error + ExecutionState" where
  "deref ex s = (case heap ex s of None \<Rightarrow> Inl NullPointer | Some st \<Rightarrow> Inr st)"

definition setState :: "Executor \<Rightarrow> sid \<Rightarrow> ExecutionState \<Rightarrow> Executor" where
  "setState ex s st = ex\<lparr> heap := (heap ex)(s \<mapsto> st) \<rparr>"

text \<open>
  Modelled from the spec: \<^verbatim>\<open>ExecutionState::branch()\<close> and the copy constructor, whose
  bodies are in a file that is not among the sources. The spec describes \<^verbatim>\<open>branch()\<close> as
  a ``reference-sharing copy'': the new state, at the next free pointer, agrees with the
  original on every field of the model, and the original is unchanged.
\<close>

definition branch :: "Executor \<Rightarrow> sid \<Rightarrow> error + (sid \<times> Executor)" where
  "branch ex s =
     (case heap ex s of
        None \<Rightarrow> Inl NullPointer
      | Some st \<Rightarrow>
          Inr (heapNext ex, ex\<lparr> heap := (heap ex)(heapNext ex \<mapsto> st), heapNext := Suc (heapNext ex) \<rparr>))"

text \<open>
  Modelled from the spec: the constraint manager, an external collaborator, keeps the
  path constraints as an ``ordered set of boolean expressions''; adding one appends it.

  \<^verbatim>\<open>ExecutionState::addConstraint\<close> also records the constraint as a guiding one in a
  normal, non-recovery state that has a snapshot.
\<close>

definition addGuidingConstraint :: "ExecutionState \<Rightarrow> expr \<Rightarrow> error + ExecutionState" where
  "addGuidingConstraint st e =
     (if \<not> isNormalState st then Inl AssertionFailed
      else Inr (st\<lparr> guidingConstraints := List.insert e (guidingConstraints st) \<rparr>))"

definition ExecutionState_addConstraint :: "ExecutionState \<Rightarrow> expr \<Rightarrow> error + ExecutionState" where
  "ExecutionState_addConstraint st e =
     (let st1 = st\<lparr> constraints := constraints st @ [e] \<rparr> in
      if isNormalState st1 \<and> \<not> isRecoveryState st1 then
        (if snapshots st1 \<noteq> [] then addGuidingConstraint st1 e else Inr st1)
      else Inr st1)"

text \<open>
  \<^verbatim>\<open>Executor::addConstraint\<close>: a constant condition is not recorded, and a constant
  other than true is a fatal error. Implied value concretisation is off
  (\<^verbatim>\<open>ivcEnabled(false)\<close>).
\<close>

definition addConstraint :: "Executor \<Rightarrow> sid \<Rightarrow> expr \<Rightarrow> error + Executor" where
  "addConstraint ex s condition =
     (case condition of
        ConstantExpr n \<Rightarrow> if n \<noteq> 1 then Inl FatalError else Inr ex
      | _ \<Rightarrow>
          (case heap ex s of
             None \<Rightarrow> Inl NullPointer
           | Some st \<Rightarrow>
               (case ExecutionState_addConstraint st condition of
                  Inl e \<Rightarrow> Inl e
                | Inr st1 \<Rightarrow> Inr (setState ex s st1))))"

text \<open>\<^verbatim>\<open>Executor::terminateState\<close>.\<close>

definition terminateState :: "Executor \<Rightarrow> sid \<Rightarrow> error + Executor" where
  "terminateState ex s =
     (case heap ex s of
        None \<Rightarrow> Inl NullPointer
      | Some st \<Rightarrow>
          let ex1 = ex\<lparr> nonRecoveryStates := nonRecoveryStates ex - {s} \<rparr> in
          if s \<notin> set (addedStates ex1) then
            Inr (ex1\<lparr> heap := (heap ex1)(s \<mapsto> st\<lparr> pc := prevPC st \<rparr>),
                      removedStates := removedStates ex1 @ [s] \<rparr>)
          else
            Inr (ex1\<lparr> addedStates := remove1 s (addedStates ex1),
                      heap := (heap ex1)(s := None) \<rparr>))"

text \<open>
  \<^verbatim>\<open>Executor::terminateStateRecursively\<close> walks the chain of dependent states. The chain is
  a linked structure on the heap, so the walk is a partial function.
\<close>

partial_function (option) terminateStateRecursively ::
  "Executor \<Rightarrow> sid \<Rightarrow> (error + Executor) option" where
  "terminateStateRecursively ex current =
     (case heap ex current of
        None \<Rightarrow> Some (Inl NullPointer)
      | Some st \<Rightarrow>
          if isRecoveryState st then
            (case dependentState st of
               None \<Rightarrow> Some (Inl AssertionFailed)
             | Some nxt \<Rightarrow>
                 (case terminateState ex current of
                    Inl e \<Rightarrow> Some (Inl e)
                  | Inr ex1 \<Rightarrow> terminateStateRecursively ex1 nxt))
          else Some (terminateState ex current))"

text \<open>
  \<^verbatim>\<open>Executor::terminateStateEarly\<close>; the test case it may emit goes to the interpreter
  handler.
\<close>

definition terminateStateEarly :: "Executor \<Rightarrow> sid \<Rightarrow> error + Executor" where
  "terminateStateEarly ex s =
     (case heap ex s of
        None \<Rightarrow> Inl NullPointer
      | Some st \<Rightarrow>
          if isRecoveryState st then
            (case terminateStateRecursively ex s of None \<Rightarrow> Inl DoesNotReturn | Some r \<Rightarrow> r)
          else terminateState ex s)"

text \<open>
  \<^verbatim>\<open>ExecutionState::removeFalsePrefixes\<close> and \<^verbatim>\<open>removeTruePrefixes\<close>: both branches of the
  source (more than one prefix; exactly one) erase the prefixes whose character at
  \<^verbatim>\<open>depth\<close> is the given one.
\<close>

fun erasePrefixes :: "char \<Rightarrow> nat \<Rightarrow> (string \<times> nat) list \<Rightarrow> error + (string \<times> nat) list" where
  "erasePrefixes c d [] = Inr []"
| "erasePrefixes c d (p # ps) =
     (case charAt (fst p) d of
        Inl e \<Rightarrow> Inl e
      | Inr x \<Rightarrow>
          (case erasePrefixes c d ps of
             Inl e \<Rightarrow> Inl e
           | Inr r \<Rightarrow> Inr (if x = c then r else p # r)))"

definition removeFalsePrefixes :: "ExecutionState \<Rightarrow> error + ExecutionState" where
  "removeFalsePrefixes st =
     (case erasePrefixes (CHR ''1'') (depth st) (prefixes st) of
        Inl e \<Rightarrow> Inl e
      | Inr ps \<Rightarrow> Inr (st\<lparr> prefixes := ps \<rparr>))"

definition removeTruePrefixes :: "ExecutionState \<Rightarrow> error + ExecutionState" where
  "removeTruePrefixes st =
     (case erasePrefixes (CHR ''0'') (depth st) (prefixes st) of
        Inl e \<Rightarrow> Inl e
      | Inr ps \<Rightarrow> Inr (st\<lparr> prefixes := ps \<rparr>))"

section \<open>Forking\<close>

text \<open>
  \<^verbatim>\<open>Executor::forkDependentStates\<close>, first loop: every state on the dependent chain of the
  true state is copied, the copy is linked below the previous copy, and the walk goes on
  while the state copied is itself a recovery state. The result carries
  \<^verbatim>\<open>forkedOriginatingState\<close>, which stays null when the chain ends in a null pointer.
\<close>

partial_function (option) forkDependentStates_copy ::
  "Executor \<Rightarrow> sid \<Rightarrow> sid \<Rightarrow> (error + (sid option \<times> Executor)) option" where
  "forkDependentStates_copy ex current prevForked =
     (case heap ex current of
        None \<Rightarrow> Some (Inl NullPointer)
      | Some cst \<Rightarrow>
          let forked = heapNext ex in
          if \<not> isSuspended cst then Some (Inl AssertionFailed)
          else if \<not> isNormalState cst then Some (Inl AssertionFailed)
          else
            (case heap ex prevForked of
               None \<Rightarrow> Some (Inl NullPointer)
             | Some pst \<Rightarrow>
                 if \<not> isRecoveryState pst then Some (Inl AssertionFailed)
                 else
                   let ex1 = ex\<lparr> heap := (heap ex)
                                (forked \<mapsto> cst\<lparr> recoveryState := Some prevForked \<rparr>,
                                 prevForked \<mapsto> pst\<lparr> dependentState := Some forked \<rparr>),
                              heapNext := Suc (heapNext ex) \<rparr>
                   in if isRecoveryState cst then
                        (case dependentState cst of
                           None \<Rightarrow> Some (Inr (None, ex1))
                         | Some nxt \<Rightarrow> forkDependentStates_copy ex1 nxt forked)
                      else Some (Inr (Some forked, ex1))))"

text \<open>
  Second loop: the recovery states from the false state downwards get the copied
  originating state.
\<close>

partial_function (option) forkDependentStates_originating ::
  "Executor \<Rightarrow> sid \<Rightarrow> sid option \<Rightarrow> (error + Executor) option" where
  "forkDependentStates_originating ex current forkedOriginatingState =
     (case heap ex current of
        None \<Rightarrow> Some (Inl NullPointer)
      | Some cst \<Rightarrow>
          if isRecoveryState cst then
            (case forkedOriginatingState of
               None \<Rightarrow> Some (Inl NullPointer)
             | Some fo \<Rightarrow>
                 (case heap ex fo of
                    None \<Rightarrow> Some (Inl NullPointer)
                  | Some fost \<Rightarrow>
                      if \<not> isNormalState fost then Some (Inl AssertionFailed)
                      else
                        let ex1 = setState ex current (cst\<lparr> originatingState := Some fo \<rparr>) in
                        (case dependentState cst of
                           None \<Rightarrow> Some (Inr ex1)
                         | Some nxt \<Rightarrow>
                             forkDependentStates_originating ex1 nxt forkedOriginatingState)))
          else Some (Inr ex))"

definition forkDependentStates :: "Executor \<Rightarrow> sid \<Rightarrow> sid \<Rightarrow> error + Executor" where
  "forkDependentStates ex trueState falseState =
     (case heap ex trueState of
        None \<Rightarrow> Inl NullPointer
      | Some tst \<Rightarrow>
          if \<not> isRecoveryState tst then Inl AssertionFailed
          else
            (case dependentState tst of
               None \<Rightarrow> Inl NullPointer
             | Some current \<Rightarrow>
                 (case forkDependentStates_copy ex current falseState of
                    None \<Rightarrow> Inl DoesNotReturn
                  | Some (Inl e) \<Rightarrow> Inl e
                  | Some (Inr (fo, ex1)) \<Rightarrow>
                      (case forkDependentStates_originating ex1 falseState fo of
                         None \<Rightarrow> Inl DoesNotReturn
                       | Some r \<Rightarrow> r))))"

text \<open>
  \<^verbatim>\<open>Executor::mergeConstraints\<close> and the loop of \<^verbatim>\<open>mergeConstraintsForAll\<close> over the
  dependent chain.
\<close>

definition mergeConstraints :: "Executor \<Rightarrow> sid \<Rightarrow> expr \<Rightarrow> error + Executor" where
  "mergeConstraints ex dependent condition =
     (case heap ex dependent of
        None \<Rightarrow> Inl NullPointer
      | Some dst \<Rightarrow>
          if \<not> isNormalState dst then Inl AssertionFailed
          else addConstraint ex dependent condition)"

partial_function (option) mergeConstraintsForAll_loop ::
  "Executor \<Rightarrow> sid \<Rightarrow> expr \<Rightarrow> (error + Executor) option" where
  "mergeConstraintsForAll_loop ex nxt condition =
     (case mergeConstraints ex nxt condition of
        Inl e \<Rightarrow> Some (Inl e)
      | Inr ex1 \<Rightarrow>
          (case heap ex1 nxt of
             None \<Rightarrow> Some (Inl NullPointer)
           | Some nst \<Rightarrow>
               if isRecoveryState nst then
                 (case dependentState nst of
                    None \<Rightarrow> Some (Inr ex1)
                  | Some n2 \<Rightarrow> mergeConstraintsForAll_loop ex1 n2 condition)
               else Some (Inr ex1)))"

definition mergeConstraintsForAll :: "Executor \<Rightarrow> sid \<Rightarrow> expr \<Rightarrow> error + Executor" where
  "mergeConstraintsForAll ex recoverySid condition =
     (case heap ex recoverySid of
        None \<Rightarrow> Inl NullPointer
      | Some rst \<Rightarrow>
          if \<not> isRecoveryState rst then Inl AssertionFailed
          else
            (case dependentState rst of
               None \<Rightarrow> Inl NullPointer
             | Some nxt \<Rightarrow>
                 (case mergeConstraintsForAll_loop ex nxt condition of
                    None \<Rightarrow> Inl DoesNotReturn
                  | Some (Inl e) \<Rightarrow> Inl e
                  | Some (Inr ex1) \<Rightarrow>
                      (case heap ex1 recoverySid of
                         None \<Rightarrow> Inl NullPointer
                       | Some rst1 \<Rightarrow>
                           (case originatingState rst1 of
                              None \<Rightarrow> Inl NullPointer
                            | Some os \<Rightarrow>
                                (case heap ex1 os of
                                   None \<Rightarrow> Inl NullPointer
                                 | Some ost \<Rightarrow>
                                     (case addGuidingConstraint ost condition of
                                        Inl e \<Rightarrow> Inl e
                                      | Inr ost1 \<Rightarrow> Inr (setState ex1 os ost1))))))))"

text \<open>
  The first part of \<^verbatim>\<open>Executor::fork\<close>: where the verdict comes from. The master
  (\<^verbatim>\<open>coreId == 0\<close>) and a worker outside ranging ask the solver; a worker in ranging asks
  the solver at an internal fork and \<^verbatim>\<open>branchToTake\<close> otherwise. \<open>solverResult\<close> is
  what \<^verbatim>\<open>solver->evaluate\<close> answers for the state and the condition, \<open>None\<close> when it
  fails. The result is the verdict with \<^verbatim>\<open>forkAndSuspend\<close>, or \<open>None\<close> after a failed
  query.
\<close>

definition fork_verdict ::
  "Executor \<Rightarrow> ExecutionState \<Rightarrow> bool \<Rightarrow> Validity option \<Rightarrow> error + (Validity \<times> bool) option" where
  "fork_verdict ex st isInternal solverResult =
     (if coreId ex = 0 then Inr (map_option (\<lambda>r. (r, False)) solverResult)
      else if shallIRange st then
        (if isInternal then Inr (map_option (\<lambda>r. (r, False)) solverResult)
         else
           (case branchToTake st False of
              Inl e \<Rightarrow> Inl e
            | Inr (solverRes, forkAndSuspend) \<Rightarrow>
                Inr (Some (if solverRes = 0 then VTrue
                           else if solverRes = 1 then VFalse
                           else VUnknown, forkAndSuspend))))
      else Inr (map_option (\<lambda>r. (r, False)) solverResult))"

text \<open>
  The second part: a replay path overrides an unknown verdict; otherwise an unknown
  verdict is replaced by a random branch when forking is inhibited (memory cap, fork
  disabled on the state or globally, fork budget used up). \<open>rngBool\<close> is what
  \<^verbatim>\<open>theRNG.getBool()\<close> answers.
\<close>

definition forkInhibited :: "Executor \<Rightarrow> ExecutionState \<Rightarrow> bool" where
  "forkInhibited ex st =
     ((MaxMemoryInhibit ex \<and> atMemoryLimit ex) \<or> forkDisabled st \<or> inhibitForking ex \<or>
      (case MaxForks ex of None \<Rightarrow> False | Some m \<Rightarrow> forks ex \<ge> m))"

definition fork_replay ::
  "Executor \<Rightarrow> sid \<Rightarrow> expr \<Rightarrow> Validity \<Rightarrow> bool list \<Rightarrow> error + (Validity \<times> Executor)" where
  "fork_replay ex current condition res path =
     (if \<not> replayPosition ex < length path then Inl AssertionFailed
      else
        let br = path ! replayPosition ex;
            ex1 = ex\<lparr> replayPosition := Suc (replayPosition ex) \<rparr>
        in if res = VTrue then (if br then Inr (res, ex1) else Inl AssertionFailed)
           else if res = VFalse then (if \<not> br then Inr (res, ex1) else Inl AssertionFailed)
           else if br then
             (case addConstraint ex1 current condition of
                Inl e \<Rightarrow> Inl e
              | Inr ex2 \<Rightarrow> Inr (VTrue, ex2))
           else
             (case addConstraint ex1 current (createIsZero condition) of
                Inl e \<Rightarrow> Inl e
              | Inr ex2 \<Rightarrow> Inr (VFalse, ex2)))"

definition fork_inhibit ::
  "Executor \<Rightarrow> sid \<Rightarrow> ExecutionState \<Rightarrow> expr \<Rightarrow> bool \<Rightarrow> error + (Validity \<times> Executor)" where
  "fork_inhibit ex current st condition rngBool =
     (if replayKTest ex then Inl AssertionFailed
      else if forkInhibited ex st then
        (if rngBool then
           (case addConstraint ex current condition of
              Inl e \<Rightarrow> Inl e
            | Inr ex2 \<Rightarrow> Inr (VTrue, ex2))
         else
           (case addConstraint ex current (createIsZero condition) of
              Inl e \<Rightarrow> Inl e
            | Inr ex2 \<Rightarrow> Inr (VFalse, ex2)))
      else Inr (VUnknown, ex))"

definition fork_adjust ::
  "Executor \<Rightarrow> sid \<Rightarrow> expr \<Rightarrow> bool \<Rightarrow> Validity \<Rightarrow> bool \<Rightarrow> error + (Validity \<times> Executor)" where
  "fork_adjust ex current condition isInternal res rngBool =
     (case heap ex current of
        None \<Rightarrow> Inl NullPointer
      | Some st \<Rightarrow>
          if replayPath ex \<noteq> None \<and> \<not> isInternal then
            fork_replay ex current condition res (the (replayPath ex))
          else if res = VUnknown then fork_inhibit ex current st condition rngBool
          else Inr (res, ex))"

text \<open>
  What every forking branch of \<^verbatim>\<open>fork\<close> does once the sibling exists: the sibling that
  is not a recovery state is entered into \<^verbatim>\<open>nonRecoveryStates\<close>.
\<close>

definition noteNonRecovery :: "Executor \<Rightarrow> sid \<Rightarrow> error + Executor" where
  "noteNonRecovery ex s =
     (case heap ex s of
        None \<Rightarrow> Inl NullPointer
      | Some st \<Rightarrow>
          if \<not> isRecoveryState st then Inr (ex\<lparr> nonRecoveryStates := insert s (nonRecoveryStates ex) \<rparr>)
          else Inr ex)"

text \<open>
  At a fork that is not internal both children get \<^verbatim>\<open>depth++\<close>, the true child the
  character \<^verbatim>\<open>'0'\<close> and the false child \<^verbatim>\<open>'1'\<close>.
\<close>

definition recordBranch :: "Executor \<Rightarrow> sid \<Rightarrow> char \<Rightarrow> error + Executor" where
  "recordBranch ex s c =
     (case heap ex s of
        None \<Rightarrow> Inl NullPointer
      | Some st \<Rightarrow>
          Inr (setState ex s (st\<lparr> depth := Suc (depth st), branchHist := branchHist st @ [c] \<rparr>)))"

definition fork_record :: "Executor \<Rightarrow> sid \<Rightarrow> sid \<Rightarrow> bool \<Rightarrow> error + Executor" where
  "fork_record ex trueState falseState isInternal =
     (if \<not> isInternal then
        (case recordBranch ex trueState (CHR ''0'') of
           Inl e \<Rightarrow> Inl e
         | Inr ex1 \<Rightarrow> recordBranch ex1 falseState (CHR ''1''))
      else Inr ex)"

text \<open>
  The condition goes to the true child and its negation to the false child; when the
  state that was forked is a recovery state, its dependent chain is forked as well and
  both constraints are propagated along the two chains.
\<close>

definition fork_constrain ::
  "Executor \<Rightarrow> sid \<Rightarrow> sid \<Rightarrow> sid \<Rightarrow> sid \<Rightarrow> expr \<Rightarrow> error + Executor" where
  "fork_constrain ex trueState falseState forkedFrom sibling condition =
     (case addConstraint ex trueState condition of
        Inl e \<Rightarrow> Inl e
      | Inr ex1 \<Rightarrow>
          (case addConstraint ex1 falseState (createIsZero condition) of
             Inl e \<Rightarrow> Inl e
           | Inr ex2 \<Rightarrow>
               (case heap ex2 forkedFrom of
                  None \<Rightarrow> Inl NullPointer
                | Some fromSt \<Rightarrow>
                    if isRecoveryState fromSt then
                      (case forkDependentStates ex2 forkedFrom sibling of
                         Inl e \<Rightarrow> Inl e
                       | Inr ex3 \<Rightarrow>
                           (case mergeConstraintsForAll ex3 trueState condition of
                              Inl e \<Rightarrow> Inl e
                            | Inr ex4 \<Rightarrow>
                                mergeConstraintsForAll ex4 falseState (createIsZero condition)))
                    else Inr ex2)))"

text \<open>The branch \<^verbatim>\<open>res == Solver::True\<close>.\<close>

definition fork_true ::
  "Executor \<Rightarrow> sid \<Rightarrow> expr \<Rightarrow> bool \<Rightarrow> bool \<Rightarrow> error + ((sid option \<times> sid option) \<times> Executor)" where
  "fork_true ex current condition isInternal forkAndSuspend =
     (if forkAndSuspend then
        (case branch ex current of
           Inl e \<Rightarrow> Inl e
         | Inr (falseState, ex1) \<Rightarrow>
             (case noteNonRecovery ex1 falseState of
                Inl e \<Rightarrow> Inl e
              | Inr ex2 \<Rightarrow>
                  (case fork_record ex2 current falseState isInternal of
                     Inl e \<Rightarrow> Inl e
                   | Inr ex3 \<Rightarrow>
                       (case fork_constrain ex3 current falseState current falseState condition of
                          Inl e \<Rightarrow> Inl e
                        | Inr ex4 \<Rightarrow>
                            Inr ((Some current, Some falseState),
                                 ex4\<lparr> rangingSuspendedStates :=
                                        rangingSuspendedStates ex4 @ [falseState] \<rparr>)))))
      else if \<not> isInternal then
        (case recordBranch ex current (CHR ''2'') of
           Inl e \<Rightarrow> Inl e
         | Inr ex1 \<Rightarrow> Inr ((Some current, None), ex1))
      else Inr ((Some current, None), ex))"

text \<open>The branch \<^verbatim>\<open>res == Solver::False\<close>.\<close>

definition fork_false ::
  "Executor \<Rightarrow> sid \<Rightarrow> expr \<Rightarrow> bool \<Rightarrow> bool \<Rightarrow> error + ((sid option \<times> sid option) \<times> Executor)" where
  "fork_false ex current condition isInternal forkAndSuspend =
     (if forkAndSuspend then
        (case branch (ex\<lparr> forks := Suc (forks ex) \<rparr>) current of
           Inl e \<Rightarrow> Inl e
         | Inr (trueState, ex1) \<Rightarrow>
             (case noteNonRecovery ex1 trueState of
                Inl e \<Rightarrow> Inl e
              | Inr ex2 \<Rightarrow>
                  (case fork_record ex2 trueState current isInternal of
                     Inl e \<Rightarrow> Inl e
                   | Inr ex3 \<Rightarrow>
                       (case fork_constrain ex3 trueState current current trueState condition of
                          Inl e \<Rightarrow> Inl e
                        | Inr ex4 \<Rightarrow>
                            Inr ((Some trueState, Some current),
                                 ex4\<lparr> rangingSuspendedStates :=
                                        rangingSuspendedStates ex4 @ [trueState] \<rparr>)))))
      else if \<not> isInternal then
        (case recordBranch ex current (CHR ''3'') of
           Inl e \<Rightarrow> Inl e
         | Inr ex1 \<Rightarrow> Inr ((None, Some current), ex1))
      else Inr ((None, Some current), ex))"

text \<open>
  The branch \<^verbatim>\<open>res == Solver::Unknown\<close>: the real fork. On a worker the prefixes are
  divided between the children before the branch is recorded.
\<close>

definition fork_prefixes :: "Executor \<Rightarrow> sid \<Rightarrow> sid \<Rightarrow> error + Executor" where
  "fork_prefixes ex trueState falseState =
     (if coreId ex \<noteq> 0 then
        (case heap ex trueState of
           None \<Rightarrow> Inl NullPointer
         | Some tst \<Rightarrow>
             (case removeFalsePrefixes tst of
                Inl e \<Rightarrow> Inl e
              | Inr tst1 \<Rightarrow>
                  let ex1 = setState ex trueState tst1 in
                  (case heap ex1 falseState of
                     None \<Rightarrow> Inl NullPointer
                   | Some fSt \<Rightarrow>
                       (case removeTruePrefixes fSt of
                          Inl e \<Rightarrow> Inl e
                        | Inr fSt1 \<Rightarrow> Inr (setState ex1 falseState fSt1)))))
      else Inr ex)"

definition fork_unknown ::
  "Executor \<Rightarrow> sid \<Rightarrow> expr \<Rightarrow> bool \<Rightarrow> error + ((sid option \<times> sid option) \<times> Executor)" where
  "fork_unknown ex current condition isInternal =
     (case branch (ex\<lparr> forks := Suc (forks ex) \<rparr>) current of
        Inl e \<Rightarrow> Inl e
      | Inr (falseState, ex1) \<Rightarrow>
          (case noteNonRecovery ex1 falseState of
             Inl e \<Rightarrow> Inl e
           | Inr ex2 \<Rightarrow>
               (case fork_prefixes (ex2\<lparr> addedStates := addedStates ex2 @ [falseState] \<rparr>)
                       current falseState of
                  Inl e \<Rightarrow> Inl e
                | Inr ex3 \<Rightarrow>
                    (case fork_record ex3 current falseState isInternal of
                       Inl e \<Rightarrow> Inl e
                     | Inr ex4 \<Rightarrow>
                         (case fork_constrain ex4 current falseState current falseState condition of
                            Inl e \<Rightarrow> Inl e
                          | Inr ex5 \<Rightarrow> Inr ((Some current, Some falseState), ex5))))))"

text \<open>
  \<^verbatim>\<open>Executor::fork(current, condition, isInternal)\<close>. The result is the pair of the
  true and the false state (a null pointer is \<open>None\<close>) with the executor after the call.
\<close>

definition fork ::
  "Executor \<Rightarrow> sid \<Rightarrow> expr \<Rightarrow> bool \<Rightarrow> Validity option \<Rightarrow> bool \<Rightarrow>
     error + ((sid option \<times> sid option) \<times> Executor)" where
  "fork ex current condition isInternal solverResult rngBool =
     (case heap ex current of
        None \<Rightarrow> Inl NullPointer
      | Some st \<Rightarrow>
          (case fork_verdict ex st isInternal solverResult of
             Inl e \<Rightarrow> Inl e
           | Inr None \<Rightarrow>
               (case terminateStateEarly (setState ex current (st\<lparr> pc := prevPC st \<rparr>)) current of
                  Inl e \<Rightarrow> Inl e
                | Inr ex1 \<Rightarrow> Inr ((None, None), ex1))
           | Inr (Some (res0, forkAndSuspend)) \<Rightarrow>
               (case fork_adjust ex current condition isInternal res0 rngBool of
                  Inl e \<Rightarrow> Inl e
                | Inr (res, ex1) \<Rightarrow>
                    if res = VTrue then fork_true ex1 current condition isInternal forkAndSuspend
                    else if res = VFalse then fork_false ex1 current condition isInternal forkAndSuspend
                    else fork_unknown ex1 current condition isInternal)))"

text \<open>
  An executor that holds nothing; the concrete executors of the examples are updates of
  it. With \<^verbatim>\<open>coreId\<close> 0 it is the master.
\<close>

definition blankExecutor :: Executor where
  "blankExecutor =
     \<lparr> heap = Map.empty, heapNext = 0, states = [], addedStates = [], removedStates = [],
       suspendedStates = [], resumedStates = [], rangingSuspendedStates = [],
       nonRecoveryStates = {}, searcherStates = [], prefixSuspendedStatesMap = Map.empty,
       prefixTree = Node None None,
       coreId = 0, haltExecution = False, haltFromMaster = False, ready2Offload = False,
       waiting4OffloadReq = False, replayPath = None, replayPosition = 0,
       replayKTest = False, forks = 0, MaxForks = None, MaxMemoryInhibit = False,
       atMemoryLimit = False, inhibitForking = False \<rparr>"

text \<open>
  The reading of depth that counts only the events of a symbolic fork: the number of
  characters \<^verbatim>\<open>'0'\<close> and \<^verbatim>\<open>'1'\<close> in a branch history.
\<close>

definition symbolicBranchCount :: "string \<Rightarrow> nat" where
  "symbolicBranchCount h = length (filter (\<lambda>c. c = CHR ''0'' \<or> c = CHR ''1'') h)"

text \<open>What the code keeps instead: in every state on the heap, depth is the length of the branch history.\<close>

definition depthIsHistoryLength :: "(sid \<rightharpoonup> ExecutionState) \<Rightarrow> bool" where
  "depthIsHistoryLength h = (\<forall>s st. h s = Some st \<longrightarrow> depth st = length (branchHist st))"

text \<open>
  A relation between the heap before and after an operation that does not record a
  branch: every state of the new heap has the depth and the branch history of some state
  of the old one (itself, or the state it was copied from).
\<close>

definition keepsHistories :: "(sid \<rightharpoonup> ExecutionState) \<Rightarrow> (sid \<rightharpoonup> ExecutionState) \<Rightarrow> bool" where
  "keepsHistories h h' =
     (\<forall>s st'. h' s = Some st' \<longrightarrow>
        (\<exists>s0 st. h s0 = Some st \<and> depth st' = depth st \<and> branchHist st' = branchHist st))"

text \<open>
  The master with one fresh state at pointer 1, used in the examples of forking.
\<close>

definition exampleMaster :: Executor where
  "exampleMaster = blankExecutor\<lparr> heap := [1 \<mapsto> blankState], heapNext := 2 \<rparr>"

section \<open>Offloading\<close>

text \<open>
  The executor talks to its searcher through the \<^verbatim>\<open>Searcher\<close> interface. The model holds
  the states of the searcher as a list and follows \<^verbatim>\<open>DFSSearcher::update\<close>: the added
  states are appended, and a removed state is popped when it is the last one and erased
  at its first occurrence otherwise; removing a state the searcher does not hold fails
  the assertion ``invalid state removed''.
\<close>

fun DFSSearcher_remove :: "sid list \<Rightarrow> sid list \<Rightarrow> error + sid list" where
  "DFSSearcher_remove sts [] = Inr sts"
| "DFSSearcher_remove sts (es # rest) =
     (if sts \<noteq> [] \<and> es = last sts then DFSSearcher_remove (butlast sts) rest
      else if es \<in> set sts then DFSSearcher_remove (remove1 es sts) rest
      else Inl AssertionFailed)"

definition DFSSearcher_update :: "sid list \<Rightarrow> sid list \<Rightarrow> sid list \<Rightarrow> error + sid list" where
  "DFSSearcher_update sts addedSts removedSts = DFSSearcher_remove (sts @ addedSts) removedSts"

text \<open>
  \<^verbatim>\<open>Executor::offloadFromStatesVector(std::vector<ExecutionState*>&)\<close>. The first loop
  collects the states of \<^verbatim>\<open>states\<close> that are not suspended, in the order of the set. The
  least history length it tracks on the way is overwritten in every branch that
  follows, so the model does not carry it.
\<close>

fun collectResumed :: "Executor \<Rightarrow> sid list \<Rightarrow> error + sid list" where
  "collectResumed ex [] = Inr []"
| "collectResumed ex (s # rest) =
     (case heap ex s of
        None \<Rightarrow> Inl NullPointer
      | Some st \<Rightarrow>
          (case collectResumed ex rest of
             Inl e \<Rightarrow> Inl e
           | Inr r \<Rightarrow> Inr (if \<not> isSuspended st then s # r else r)))"

text \<open>
  The loop that recomputes \<^verbatim>\<open>minSize\<close> over the states kept: it starts from
  \<^verbatim>\<open>offloadVec[0]\<close> and lowers the value at every shorter history.
\<close>

fun minSize_loop :: "Executor \<Rightarrow> nat \<Rightarrow> sid list \<Rightarrow> error + nat" where
  "minSize_loop ex m [] = Inr m"
| "minSize_loop ex m (s # rest) =
     (case heap ex s of
        None \<Rightarrow> Inl NullPointer
      | Some st \<Rightarrow>
          minSize_loop ex (if length (branchHist st) < m then length (branchHist st) else m) rest)"

definition minSizeOf :: "Executor \<Rightarrow> sid list \<Rightarrow> error + nat" where
  "minSizeOf ex offloadVec =
     (case offloadVec of
        [] \<Rightarrow> Inl OutOfBounds
      | s # rest \<Rightarrow>
          (case heap ex s of
             None \<Rightarrow> Inl NullPointer
           | Some st \<Rightarrow> minSize_loop ex (length (branchHist st)) rest))"

text \<open>
  The result is the returned \<^verbatim>\<open>minSize\<close> with the vector \<^verbatim>\<open>offloadVec\<close>. When the guard
  fails nothing is assigned to \<^verbatim>\<open>minSize\<close>, and the value returned is indeterminate:
  \<open>None\<close>.
\<close>

definition offloadFromStatesVector :: "Executor \<Rightarrow> error + (nat option \<times> sid list)" where
  "offloadFromStatesVector ex =
     (if \<not> haltExecution ex \<and> \<not> haltFromMaster ex \<and> ready2Offload ex then
        (if length (removedStates ex) \<noteq> 0 then Inl AssertionFailed
         else
           (case collectResumed ex (states ex) of
              Inl e \<Rightarrow> Inl e
            | Inr offloadVec \<Rightarrow>
                if length offloadVec < 4 then Inr (Some 0, [])
                else if length offloadVec > 64 then
                  (case minSizeOf ex (take 16 offloadVec) of
                     Inl e \<Rightarrow> Inl e
                   | Inr m \<Rightarrow> Inr (Some m, take 16 offloadVec))
                else
                  (case minSizeOf ex (take (length offloadVec div 4) offloadVec) of
                     Inl e \<Rightarrow> Inl e
                   | Inr m \<Rightarrow> Inr (Some m, take (length offloadVec div 4) offloadVec))))
      else Inr (None, []))"

text \<open>
  The common prefix in \<^verbatim>\<open>Executor::newCheck2Offload\<close>: for \<^verbatim>\<open>x\<close> below \<^verbatim>\<open>minSize\<close> the
  character of the first history is kept while every other history has the same
  character at \<^verbatim>\<open>x\<close>. \<open>matchesAt\<close> is the inner loop; the third argument of
  \<open>commonPref_loop\<close> counts the iterations left.
\<close>

fun matchesAt :: "char \<Rightarrow> nat \<Rightarrow> string list \<Rightarrow> error + bool" where
  "matchesAt val x [] = Inr True"
| "matchesAt val x (h # hs) =
     (case charAt h x of
        Inl e \<Rightarrow> Inl e
      | Inr c \<Rightarrow> if val \<noteq> c then Inr False else matchesAt val x hs)"

fun commonPref_loop :: "string list \<Rightarrow> nat \<Rightarrow> nat \<Rightarrow> error + string" where
  "commonPref_loop hs x 0 = Inr []"
| "commonPref_loop hs x (Suc k) =
     (case hs of
        [] \<Rightarrow> Inl OutOfBounds
      | h0 # rest \<Rightarrow>
          (case charAt h0 x of
             Inl e \<Rightarrow> Inl e
           | Inr val \<Rightarrow>
               (case matchesAt val x rest of
                  Inl e \<Rightarrow> Inl e
                | Inr False \<Rightarrow> Inr []
                | Inr True \<Rightarrow>
                    (case commonPref_loop hs (Suc x) k of
                       Inl e \<Rightarrow> Inl e
                     | Inr r \<Rightarrow> Inr (val # r)))))"

text \<open>
  The packet: the common prefix, then for every state a \<^verbatim>\<open>'-'\<close> and its history from
  the end of the common prefix on.
\<close>

definition combinePrefixes :: "string \<Rightarrow> string list \<Rightarrow> string" where
  "combinePrefixes commonPref hs =
     commonPref @ concat (map (\<lambda>h. CHR ''-'' # drop (length commonPref) h) hs)"

fun historiesOf :: "Executor \<Rightarrow> sid list \<Rightarrow> error + string list" where
  "historiesOf ex [] = Inr []"
| "historiesOf ex (s # rest) =
     (case heap ex s of
        None \<Rightarrow> Inl NullPointer
      | Some st \<Rightarrow>
          (case historiesOf ex rest of
             Inl e \<Rightarrow> Inl e
           | Inr r \<Rightarrow> Inr (branchHist st # r)))"

text \<open>
  After the packet is sent the states leave the searcher and, one by one, the set
  \<^verbatim>\<open>states\<close> (where each has to be), go to \<^verbatim>\<open>rangingSuspendedStates\<close> and are taken out
  of \<^verbatim>\<open>removedStates\<close>.
\<close>

fun surrender :: "Executor \<Rightarrow> sid list \<Rightarrow> error + Executor" where
  "surrender ex [] = Inr ex"
| "surrender ex (s # rest) =
     (if s \<notin> set (states ex) then Inl AssertionFailed
      else
        surrender
          (ex\<lparr> states := remove1 s (states ex),
                rangingSuspendedStates := rangingSuspendedStates ex @ [s],
                removedStates := remove1 s (removedStates ex) \<rparr>)
          rest)"

datatype Tag = OFFLOAD | KILL | OTHER_TAG

text \<open>
  \<^verbatim>\<open>Executor::newCheck2Offload\<close>. \<open>probe\<close> is what \<^verbatim>\<open>MPI_Iprobe\<close> finds: no message, or
  the tag of the message waiting. The result carries the packet sent to the master with
  tag \<^verbatim>\<open>OFFLOAD_RESP\<close>, if one is sent.
\<close>

definition newCheck2Offload :: "Executor \<Rightarrow> Tag option \<Rightarrow> error + (string option \<times> Executor)" where
  "newCheck2Offload ex0 probe =
     (let ex = ex0\<lparr> waiting4OffloadReq := True \<rparr> in
      case probe of
        None \<Rightarrow> Inr (None, ex)
      | Some OFFLOAD \<Rightarrow>
          (case offloadFromStatesVector ex of
             Inl e \<Rightarrow> Inl e
           | Inr (minSize, states2Offload) \<Rightarrow>
               if length states2Offload > 0 then
                 (case minSize of
                    None \<Rightarrow> Inl Unreachable
                  | Some m \<Rightarrow>
                      (case historiesOf ex states2Offload of
                         Inl e \<Rightarrow> Inl e
                       | Inr hs \<Rightarrow>
                           (case commonPref_loop hs 0 m of
                              Inl e \<Rightarrow> Inl e
                            | Inr commonPref \<Rightarrow>
                                (case DFSSearcher_update (searcherStates ex) [] states2Offload of
                                   Inl e \<Rightarrow> Inl e
                                 | Inr sts \<Rightarrow>
                                     (case surrender (ex\<lparr> searcherStates := sts \<rparr>) states2Offload of
                                        Inl e \<Rightarrow> Inl e
                                      | Inr ex1 \<Rightarrow>
                                          Inr (Some (combinePrefixes commonPref hs),
                                               ex1\<lparr> waiting4OffloadReq := False \<rparr>))))))
               else Inr (Some ''x'', ex\<lparr> waiting4OffloadReq := False \<rparr>))
      | Some KILL \<Rightarrow> Inr (None, ex\<lparr> haltExecution := True, haltFromMaster := True \<rparr>)
      | Some OTHER_TAG \<Rightarrow> Inr (None, ex))"



text \<open>
  The words of the specification about offloading: the states of \<^verbatim>\<open>states\<close> that are
  not suspended, and what it means for a string to be the longest common prefix of a
  list of histories.
\<close>

definition liveStates :: "Executor \<Rightarrow> sid list" where
  "liveStates ex =
     filter (\<lambda>s. case heap ex s of None \<Rightarrow> False | Some st \<Rightarrow> \<not> isSuspended st) (states ex)"




text \<open>
  A worker that is ready to offload and holds four resumed states; the state at the
  lowest pointer has the longest history.
\<close>

definition exampleWorker :: Executor where
  "exampleWorker =
     blankExecutor\<lparr> heap := [1 \<mapsto> blankState\<lparr> depth := 3, branchHist := ''010'' \<rparr>,
                             2 \<mapsto> blankState\<lparr> depth := 1, branchHist := ''0'' \<rparr>,
                             3 \<mapsto> blankState\<lparr> depth := 1, branchHist := ''1'' \<rparr>,
                             4 \<mapsto> blankState\<lparr> depth := 2, branchHist := ''01'' \<rparr>],
                    heapNext := 5, states := [1, 2, 3, 4], searcherStates := [1, 2, 3, 4],
                    coreId := 1, ready2Offload := True \<rparr>"


section \<open>Recovery: the cache and write propagation\<close>

text \<open>
  \<^verbatim>\<open>ExecutionState::updateRecoveredValue\<close> and \<^verbatim>\<open>getRecoveredValue\<close>. A cached value is
  a \<^verbatim>\<open>ref<Expr>\<close>, which may be null: the inner \<open>None\<close>. \<^verbatim>\<open>getRecoveredValue\<close> answers
  \<open>None\<close> where the source returns false, and the cached reference otherwise.
\<close>

definition updateRecoveredValue ::
  "ExecutionState \<Rightarrow> nat \<Rightarrow> nat \<Rightarrow> nat \<Rightarrow> expr option \<Rightarrow> ExecutionState" where
  "updateRecoveredValue st index slice address e =
     (let valuesCache = (case recoveryCache st (index, slice) of
                           None \<Rightarrow> Map.empty
                         | Some vc \<Rightarrow> vc)
      in st\<lparr> recoveryCache := (recoveryCache st)((index, slice) \<mapsto> valuesCache(address \<mapsto> e)) \<rparr>)"

definition getRecoveredValue ::
  "ExecutionState \<Rightarrow> nat \<Rightarrow> nat \<Rightarrow> nat \<Rightarrow> expr option option" where
  "getRecoveredValue st index slice address =
     (case recoveryCache st (index, slice) of
        None \<Rightarrow> None
      | Some valuesCache \<Rightarrow> valuesCache address)"

text \<open>
  \<^verbatim>\<open>Executor::onRecoveryStateWrite(state, address, mo, offset, value)\<close>. The object state
  of \<^verbatim>\<open>mo\<close> is looked up in the address space of the dependent state; a null result is
  dereferenced by \<^verbatim>\<open>getWriteable\<close>.
\<close>

definition onRecoveryStateWrite ::
  "Executor \<Rightarrow> sid \<Rightarrow> expr \<Rightarrow> nat \<Rightarrow> expr \<Rightarrow> expr \<Rightarrow> error + Executor" where
  "onRecoveryStateWrite ex s address mo offset val =
     (case address of
        ConstantExpr storeAddr \<Rightarrow>
          (case offset of
             ConstantExpr off \<Rightarrow>
               (case heap ex s of
                  None \<Rightarrow> Inl NullPointer
                | Some st \<Rightarrow>
                    if \<not> isRecoveryState st then Inl AssertionFailed
                    else
                      (case recoveryInfo st of
                         None \<Rightarrow> Inl NullPointer
                       | Some ri \<Rightarrow>
                           if storeAddr \<noteq> loadAddr ri then Inr ex
                           else
                             (case dependentState st of
                                None \<Rightarrow> Inl NullPointer
                              | Some d \<Rightarrow>
                                  (case heap ex d of
                                     None \<Rightarrow> Inl NullPointer
                                   | Some dst \<Rightarrow>
                                       (case addressSpace dst mo of
                                          None \<Rightarrow> Inl NullPointer
                                        | Some os \<Rightarrow>
                                            let dst1 = dst\<lparr> addressSpace :=
                                                          (addressSpace dst)(mo \<mapsto> os(off \<mapsto> val)) \<rparr>
                                            in Inr (setState ex d
                                                      (updateRecoveredValue dst1 (snapshotIndex ri)
                                                         (sliceId ri) storeAddr (Some val))))))))
           | _ \<Rightarrow> Inr ex)
      | _ \<Rightarrow> Inr ex)"

text \<open>
  A recovery state at pointer 2 that serves the load at address 100 of its dependent
  state at pointer 1, in which the memory object 7 is bound.
\<close>

definition exampleRecoveryInfo :: RecoveryInfo where
  "exampleRecoveryInfo =
     \<lparr> loadInst = 0, loadAddr = 100, loadSize = 4, ri_f = 0, sliceId = 3,
       snapshot = \<lparr> snap_state = 0, snap_f = 0 \<rparr>, snapshotIndex = 0, subId = 0 \<rparr>"

definition exampleRecovery :: Executor where
  "exampleRecovery =
     blankExecutor\<lparr> heap :=
        [1 \<mapsto> blankState\<lparr> suspendStatus := True, recoveryState := Some 2,
                           addressSpace := [7 \<mapsto> Map.empty] \<rparr>,
         2 \<mapsto> blankState\<lparr> stateType := RECOVERY_STATE, dependentState := Some 1,
                           originatingState := Some 1,
                           recoveryInfo := Some exampleRecoveryInfo \<rparr>],
        heapNext := 3, states := [1, 2], searcherStates := [2] \<rparr>"

section \<open>Recovery: collecting the slices to run\<close>

text \<open>
  \<^verbatim>\<open>ExecutionState::getWrittenAddressInfo\<close> and \<^verbatim>\<open>getStartingIndex\<close>: the first snapshot
  that a complete overwrite of the location does not cover.
\<close>

definition getStartingIndex :: "ExecutionState \<Rightarrow> nat \<Rightarrow> nat \<Rightarrow> error + nat" where
  "getStartingIndex st address sz =
     (if \<not> isNormalState st then Inl AssertionFailed
      else
        (case writtenAddresses st address of
           None \<Rightarrow> Inr 0
         | Some info \<Rightarrow> if maxSize info \<ge> sz then Inr (wa_snapshotIndex info + 1) else Inr 0))"

text \<open>
  The first loop of \<^verbatim>\<open>Executor::getAllRecoveryInfo\<close> over the snapshots from the starting
  index on, here over the pairs of an index and its snapshot. A recovery state stops at
  the snapshot it was started from. For each snapshot the first approximate modifier
  whose function is the function of the snapshot gives the slice; a modifier without an
  entry in the table of slice identifiers is \<^verbatim>\<open>llvm_unreachable\<close>.
\<close>

fun collectRequired ::
  "ExecutionState \<Rightarrow> (nat \<times> nat) list \<Rightarrow> ((nat \<times> nat) \<rightharpoonup> nat) \<Rightarrow> nat \<Rightarrow> nat \<Rightarrow> nat \<Rightarrow>
     (nat \<times> Snapshot) list \<Rightarrow> error + RecoveryInfo list" where
  "collectRequired st modInfos modInfoToIdMap inst addr sz [] = Inr []"
| "collectRequired st modInfos modInfoToIdMap inst addr sz ((index, snap) # rest) =
     (if isRecoveryState st \<and> recoveryInfo st = None then Inl NullPointer
      else if isRecoveryState st \<and> snapshotIndex (the (recoveryInfo st)) = index then Inr []
      else
        (case find (\<lambda>modInfo. fst modInfo = snap_f snap) modInfos of
           None \<Rightarrow> collectRequired st modInfos modInfoToIdMap inst addr sz rest
         | Some modInfo \<Rightarrow>
             (case modInfoToIdMap modInfo of
                None \<Rightarrow> Inl Unreachable
              | Some slice \<Rightarrow>
                  (case collectRequired st modInfos modInfoToIdMap inst addr sz rest of
                     Inl e \<Rightarrow> Inl e
                   | Inr required \<Rightarrow>
                       Inr (\<lparr> loadInst = inst, loadAddr = addr, loadSize = sz,
                              ri_f = fst modInfo, sliceId = slice, snapshot = snap,
                              snapshotIndex = index, subId = 0 \<rparr> # required)))))"

text \<open>
  The second loop walks the required list from its end. A slice whose triple is cached
  marks the address as recovered; when the cached value is not null it is written to
  memory by \<^verbatim>\<open>executeMemoryOperation\<close> and the walk stops there. A slice that is not
  cached is memoized with a null value and pushed to the front of \<^verbatim>\<open>result\<close>. The
  argument is the required list reversed; the result carries the state, the list
  \<^verbatim>\<open>result\<close> and the cached value handed to \<^verbatim>\<open>executeMemoryOperation\<close>, if any: that
  write is the last thing the walk does, and it is carried out by code outside this
  function.
\<close>

fun filterRequired ::
  "ExecutionState \<Rightarrow> nat \<Rightarrow> RecoveryInfo list \<Rightarrow> RecoveryInfo list \<Rightarrow>
     error + (ExecutionState \<times> RecoveryInfo list \<times> expr option)" where
  "filterRequired st addr result [] = Inr (st, result, None)"
| "filterRequired st addr result (ri # rest) =
     (case getRecoveredValue st (snapshotIndex ri) (sliceId ri) addr of
        Some e \<Rightarrow>
          if \<not> isNormalState st then Inl AssertionFailed
          else
            let st1 = st\<lparr> recoveredLoads := insert addr (recoveredLoads st) \<rparr> in
            (case e of
               Some v \<Rightarrow> Inr (st1, result, Some v)
             | None \<Rightarrow> filterRequired st1 addr result rest)
      | None \<Rightarrow>
          filterRequired (updateRecoveredValue st (snapshotIndex ri) (sliceId ri) addr None)
            addr (ri # result) rest)"

text \<open>
  \<^verbatim>\<open>Executor::getAllRecoveryInfo(state, ki, result)\<close>. \<open>loadInfo\<close> is what \<^verbatim>\<open>getLoadInfo\<close>
  finds with the solver: the address and size of the load and its allocation site, or
  \<open>None\<close> when it fails. \<open>modInfos\<close> is the set of approximate modifiers that the
  mod/ref analysis gives for that site, in the order of the set, and \<open>modInfoToIdMap\<close>
  its table of slice identifiers. The boolean is the value returned.
\<close>

definition getAllRecoveryInfo ::
  "ExecutionState \<Rightarrow> nat \<Rightarrow> (nat \<times> nat \<times> nat) option \<Rightarrow> (nat \<times> nat) list \<Rightarrow>
     ((nat \<times> nat) \<rightharpoonup> nat) \<Rightarrow> RecoveryInfo list \<Rightarrow>
     error + (bool \<times> ExecutionState \<times> RecoveryInfo list \<times> expr option)" where
  "getAllRecoveryInfo st inst loadInfo modInfos modInfoToIdMap result =
     (case loadInfo of
        None \<Rightarrow> Inr (False, st, result, None)
      | Some (addr, sz, allocSite) \<Rightarrow>
          if \<not> isNormalState st then Inl AssertionFailed
          else
            (case getStartingIndex st addr sz of
               Inl e \<Rightarrow> Inl e
             | Inr startIndex \<Rightarrow>
                 (case collectRequired st modInfos modInfoToIdMap inst addr sz
                         (drop startIndex (zip [0 ..< length (snapshots st)] (snapshots st))) of
                    Inl e \<Rightarrow> Inl e
                  | Inr required \<Rightarrow>
                      (case filterRequired st addr result (rev required) of
                         Inl e \<Rightarrow> Inl e
                       | Inr (st1, result1, w) \<Rightarrow> Inr (True, st1, result1, w)))))"

text \<open>
  The words of the specification about the cache: a slice is cached when
  \<^verbatim>\<open>getRecoveredValue\<close> finds its triple, and it is a modifying hit when the value found
  is not null. The walk reaches the slices behind the last modifying hit of the
  required list.
\<close>

definition cached :: "ExecutionState \<Rightarrow> nat \<Rightarrow> RecoveryInfo \<Rightarrow> bool" where
  "cached st addr ri = (getRecoveredValue st (snapshotIndex ri) (sliceId ri) addr \<noteq> None)"

definition modifyingHit :: "ExecutionState \<Rightarrow> nat \<Rightarrow> RecoveryInfo \<Rightarrow> bool" where
  "modifyingHit st addr ri =
     (case getRecoveredValue st (snapshotIndex ri) (sliceId ri) addr of
        Some (Some v) \<Rightarrow> True
      | _ \<Rightarrow> False)"

definition reached :: "ExecutionState \<Rightarrow> nat \<Rightarrow> RecoveryInfo list \<Rightarrow> RecoveryInfo list" where
  "reached st addr required = rev (takeWhile (\<lambda>ri. \<not> modifyingHit st addr ri) (rev required))"

text \<open>
  A state with two snapshots of the skipped function 9. The slice 3 of the second
  snapshot has run and has written the value 42 to the address 100; no slice of the
  first snapshot has run. The mod/ref analysis names function 9 as the only modifier of
  the site, with slice 3.
\<close>

definition exampleDependent :: ExecutionState where
  "exampleDependent =
     blankState\<lparr> snapshots := [\<lparr> snap_state = 10, snap_f = 9 \<rparr>, \<lparr> snap_state = 11, snap_f = 9 \<rparr>],
                 recoveryCache := [(1, 3) \<mapsto> [100 \<mapsto> Some (ConstantExpr 42)]] \<rparr>"

definition exampleRequired0 :: RecoveryInfo where
  "exampleRequired0 =
     \<lparr> loadInst = 0, loadAddr = 100, loadSize = 4, ri_f = 9, sliceId = 3,
       snapshot = \<lparr> snap_state = 10, snap_f = 9 \<rparr>, snapshotIndex = 0, subId = 0 \<rparr>"

definition exampleRequired1 :: RecoveryInfo where
  "exampleRequired1 =
     \<lparr> loadInst = 0, loadAddr = 100, loadSize = 4, ri_f = 9, sliceId = 3,
       snapshot = \<lparr> snap_state = 11, snap_f = 9 \<rparr>, snapshotIndex = 1, subId = 0 \<rparr>"

text \<open>
  The same state after a third snapshot of the skipped function 9, of which no slice has
  run either, and the slice 3 of that snapshot.
\<close>

definition exampleThreeSnapshots :: ExecutionState where
  "exampleThreeSnapshots =
     exampleDependent\<lparr> snapshots := snapshots exampleDependent @ [\<lparr> snap_state = 12, snap_f = 9 \<rparr>] \<rparr>"

definition exampleRequired2 :: RecoveryInfo where
  "exampleRequired2 =
     \<lparr> loadInst = 0, loadAddr = 100, loadSize = 4, ri_f = 9, sliceId = 3,
       snapshot = \<lparr> snap_state = 12, snap_f = 9 \<rparr>, snapshotIndex = 2, subId = 0 \<rparr>"

section \<open>Recovery: the return of a recovery state\<close>

text \<open>
  \<^verbatim>\<open>Executor::replicateBranchHist(state, recState)\<close> copies to \<^verbatim>\<open>recState\<close> the part of
  the history of \<^verbatim>\<open>state\<close> that \<^verbatim>\<open>recState\<close> does not have yet, with the depth and the
  prefixes of \<^verbatim>\<open>state\<close>.
\<close>

definition replicateBranchHist :: "Executor \<Rightarrow> sid \<Rightarrow> sid \<Rightarrow> error + Executor" where
  "replicateBranchHist ex s recSid =
     (case heap ex s of
        None \<Rightarrow> Inl NullPointer
      | Some st \<Rightarrow>
          (case heap ex recSid of
             None \<Rightarrow> Inl NullPointer
           | Some rst \<Rightarrow>
               if \<not> depth rst \<le> depth st then Inl AssertionFailed
               else
                 Inr (setState ex recSid
                        (rst\<lparr> branchHist :=
                                 branchHist rst @ drop (length (branchHist rst)) (branchHist st),
                              depth := depth st, prefixes := prefixes st \<rparr>))))"

definition PRIORITY_HIGH :: nat where
  "PRIORITY_HIGH = 1"

text \<open>
  The guiding constraints of the originating state are added to the new recovery state
  with \<^verbatim>\<open>Executor::addConstraint\<close>, one after the other.
\<close>

fun addConstraints :: "Executor \<Rightarrow> sid \<Rightarrow> expr list \<Rightarrow> error + Executor" where
  "addConstraints ex s [] = Inr ex"
| "addConstraints ex s (c # cs) =
     (case addConstraint ex s c of Inl e \<Rightarrow> Inl e | Inr ex1 \<Rightarrow> addConstraints ex1 s cs)"

text \<open>
  The initialisation of the copy of the snapshot in \<^verbatim>\<open>Executor::startRecoveryState\<close>, up
  to the assertions on the fields it must find empty. A recovery state started from the
  first snapshot is a pure recovery state; one started from a later snapshot is a normal
  state as well and takes the recovery cache and the allocation record of the state it
  serves.
\<close>

definition initRecoveryState ::
  "ExecutionState \<Rightarrow> ExecutionState \<Rightarrow> RecoveryInfo \<Rightarrow> error + ExecutionState" where
  "initRecoveryState snapshotState st ri =
     (if snapshotIndex ri = 0 then Inr (snapshotState\<lparr> stateType := RECOVERY_STATE \<rparr>)
      else if \<not> isNormalState st then Inl AssertionFailed
      else
        let rs = snapshotState\<lparr> stateType := NORMAL_STATE + RECOVERY_STATE,
                               suspendStatus := False, recoveryState := None,
                               blockingLoadStatus := True, recoveredLoads := {},
                               recoveryCache := recoveryCache st,
                               allocationRecord := allocationRecord st \<rparr>
        in if guidingConstraints rs \<noteq> [] then Inl AssertionFailed
           else if pendingRecoveryInfos rs \<noteq> [] then Inl AssertionFailed
           else Inr rs)"

text \<open>\<^verbatim>\<open>Executor::startRecoveryState(state, recoveryInfo)\<close>.\<close>

definition startRecoveryState :: "Executor \<Rightarrow> sid \<Rightarrow> RecoveryInfo \<Rightarrow> error + Executor" where
  "startRecoveryState ex s ri =
     (case heap ex (snap_state (snapshot ri)) of
        None \<Rightarrow> Inl NullPointer
      | Some snapshotState \<Rightarrow>
          (case heap ex s of
             None \<Rightarrow> Inl NullPointer
           | Some st \<Rightarrow>
               (case initRecoveryState snapshotState st ri of
                  Inl e \<Rightarrow> Inl e
                | Inr rs \<Rightarrow>
                    if \<not> isNormalState st then Inl AssertionFailed
                    else
                      (case (if isRecoveryState st then originatingState st else Some s) of
                         None \<Rightarrow> Inl NullPointer
                       | Some orig \<Rightarrow>
                           (case heap ex orig of
                              None \<Rightarrow> Inl NullPointer
                            | Some ost \<Rightarrow>
                                if \<not> isNormalState ost then Inl AssertionFailed
                                else
                                  let r = heapNext ex;
                                      rs1 = rs\<lparr> exitInst := pc snapshotState,
                                                dependentState := Some s,
                                                originatingState := Some orig,
                                                recoveryInfo := Some ri,
                                                guidingAllocationRecord := allocationRecord st,
                                                level := (if isRecoveryState st then level st + 1 else 0) \<rparr>;
                                      ex1 = ex\<lparr> heap := (heap ex)(r \<mapsto> rs1),
                                                heapNext := Suc (heapNext ex) \<rparr>
                                  in (case addConstraints ex1 r (guidingConstraints ost) of
                                        Inl e \<Rightarrow> Inl e
                                      | Inr ex2 \<Rightarrow>
                                          (case heap ex2 r of
                                             None \<Rightarrow> Inl NullPointer
                                           | Some rs2 \<Rightarrow>
                                               (case heap ex2 s of
                                                  None \<Rightarrow> Inl NullPointer
                                                | Some st2 \<Rightarrow>
                                                    let ex3 = ex2\<lparr> heap := (heap ex2)
                                                                 (r \<mapsto> rs2\<lparr> pc := prevPC rs2,
                                                                             priority := PRIORITY_HIGH \<rparr>,
                                                                  s \<mapsto> st2\<lparr> recoveryState := Some r \<rparr>),
                                                               addedStates := addedStates ex2 @ [r] \<rparr>
                                                    in replicateBranchHist ex3 s r))))))))"

text \<open>\<^verbatim>\<open>Executor::resumeState(state, implicitlyCreated, recState)\<close>.\<close>

definition resumeState :: "Executor \<Rightarrow> sid \<Rightarrow> bool \<Rightarrow> sid \<Rightarrow> error + Executor" where
  "resumeState ex s implicitlyCreated recSid =
     (case heap ex s of
        None \<Rightarrow> Inl NullPointer
      | Some st \<Rightarrow>
          if \<not> isNormalState st then Inl AssertionFailed
          else
            let ex1 = (if \<not> isRecoveryState st
                       then ex\<lparr> nonRecoveryStates := insert s (nonRecoveryStates ex) \<rparr> else ex);
                ex2 = setState ex1 s (st\<lparr> suspendStatus := False, recoveryState := None,
                                           blockingLoadStatus := False \<rparr>);
                ex3 = (if implicitlyCreated then ex2\<lparr> addedStates := addedStates ex2 @ [s] \<rparr>
                       else ex2\<lparr> resumedStates := resumedStates ex2 @ [s] \<rparr>)
            in replicateBranchHist ex3 recSid s)"

text \<open>\<^verbatim>\<open>Executor::notifyDependentState(recoveryState)\<close>.\<close>

definition notifyDependentState :: "Executor \<Rightarrow> sid \<Rightarrow> error + Executor" where
  "notifyDependentState ex recSid =
     (case heap ex recSid of
        None \<Rightarrow> Inl NullPointer
      | Some rst \<Rightarrow>
          if \<not> isRecoveryState rst then Inl AssertionFailed
          else
            (case dependentState rst of
               None \<Rightarrow> Inl NullPointer
             | Some d \<Rightarrow>
                 (case heap ex d of
                    None \<Rightarrow> Inl NullPointer
                  | Some dst \<Rightarrow>
                      if isNormalState rst \<and> \<not> isNormalState dst then Inl AssertionFailed
                      else
                        let ex1 = (if isNormalState rst
                                   then setState ex d (dst\<lparr> allocationRecord := allocationRecord rst \<rparr>)
                                   else ex)
                        in if d \<notin> set (states ex1) then resumeState ex1 d True recSid
                           else resumeState ex1 d False recSid)))"

text \<open>
  \<^verbatim>\<open>Executor::onRecoveryStateExit(state)\<close>; \<^verbatim>\<open>getPendingRecoveryInfo\<close> takes the head of
  the queue of the dependent state.
\<close>

definition onRecoveryStateExit :: "Executor \<Rightarrow> sid \<Rightarrow> error + Executor" where
  "onRecoveryStateExit ex s =
     (case heap ex s of
        None \<Rightarrow> Inl NullPointer
      | Some st \<Rightarrow>
          if \<not> isRecoveryState st then Inl AssertionFailed
          else
            (case dependentState st of
               None \<Rightarrow> Inl NullPointer
             | Some d \<Rightarrow>
                 (case heap ex d of
                    None \<Rightarrow> Inl NullPointer
                  | Some dst \<Rightarrow>
                      (case (case pendingRecoveryInfos dst of
                               ri # rest \<Rightarrow>
                                 (case replicateBranchHist
                                         (setState ex d (dst\<lparr> pendingRecoveryInfos := rest \<rparr>)) s d of
                                    Inl e \<Rightarrow> Inl e
                                  | Inr ex1 \<Rightarrow> startRecoveryState ex1 d ri)
                             | [] \<Rightarrow> notifyDependentState ex s) of
                         Inl e \<Rightarrow> Inl e
                       | Inr ex2 \<Rightarrow> terminateState ex2 s))))"

text \<open>
  \<^verbatim>\<open>Executor::addConstraint\<close> accepts every condition but a constant other than true.
\<close>

definition admissibleConstraint :: "expr \<Rightarrow> bool" where
  "admissibleConstraint c = (case c of ConstantExpr n \<Rightarrow> n = 1 | _ \<Rightarrow> True)"

text \<open>
  The executor \<^verbatim>\<open>exampleRecovery\<close> with the snapshot state at pointer 0 and one more
  recovery task waiting in the queue of the dependent state. The snapshot was taken at
  the instruction 5, reached from the instruction 4, under the constraint
  \<open>SymbolicExpr 9\<close>; the dependent state guides its recovery states with the constraint
  \<open>SymbolicExpr 8\<close>; the recovery state that finishes has taken one branch.
\<close>

definition examplePending :: Executor where
  "examplePending =
     exampleRecovery\<lparr> heap :=
        [0 \<mapsto> blankState\<lparr> pc := 5, prevPC := 4, constraints := [SymbolicExpr 9] \<rparr>,
         1 \<mapsto> blankState\<lparr> suspendStatus := True, recoveryState := Some 2,
                           addressSpace := [7 \<mapsto> Map.empty],
                           guidingConstraints := [SymbolicExpr 8],
                           pendingRecoveryInfos := [exampleRecoveryInfo] \<rparr>,
         2 \<mapsto> blankState\<lparr> stateType := RECOVERY_STATE, dependentState := Some 1,
                           originatingState := Some 1,
                           recoveryInfo := Some exampleRecoveryInfo,
                           branchHist := ''0'', depth := 1 \<rparr>] \<rparr>"

section \<open>The dependent chain of a recovery state\<close>

text \<open>
  A recovery state serves a dependent state, which may itself be a recovery state
  serving another one, down to a state that is not a recovery state. While the recovery
  state runs, the states below it are normal states and suspended. \<open>dependentChain h ds\<close>
  says that the pointers \<open>ds\<close> are such a chain on the heap \<open>h\<close>, from its first state
  to the state that ends it.
\<close>

fun dependentChain :: "(sid \<rightharpoonup> ExecutionState) \<Rightarrow> sid list \<Rightarrow> bool" where
  "dependentChain h [] = False"
| "dependentChain h (d # ds) =
     (case h d of
        None \<Rightarrow> False
      | Some st \<Rightarrow>
          isNormalState st \<and> isSuspended st \<and>
          (if isRecoveryState st
           then ds \<noteq> [] \<and> dependentState st = Some (hd ds) \<and> dependentChain h ds
           else ds = []))"

text \<open>
  What a chain depends on in a state: its type, its suspend status and its dependent
  state.
\<close>

definition skeleton :: "ExecutionState \<Rightarrow> nat \<times> bool \<times> sid option" where
  "skeleton st = (stateType st, suspendStatus st, dependentState st)"

text \<open>
  The changes that propagating a constraint makes to a state: constraints are appended,
  the guiding constraints may differ, everything else stays.
\<close>

definition grows :: "ExecutionState \<Rightarrow> ExecutionState \<Rightarrow> bool" where
  "grows st st' =
     (\<exists>cs gs. st' = st\<lparr> constraints := constraints st @ cs, guidingConstraints := gs \<rparr>)"

definition heapGrows :: "(sid \<rightharpoonup> ExecutionState) \<Rightarrow> (sid \<rightharpoonup> ExecutionState) \<Rightarrow> bool" where
  "heapGrows h h' =
     (\<forall>x. case h x of None \<Rightarrow> h' x = None | Some st \<Rightarrow> (\<exists>st'. h' x = Some st' \<and> grows st st'))"

text \<open>
  The change that the second loop of \<^verbatim>\<open>forkDependentStates\<close> makes to the heap: a
  state is as before, or as before with its originating state set to \<open>fo\<close>.
\<close>

definition setsOriginating ::
  "sid \<Rightarrow> (sid \<rightharpoonup> ExecutionState) \<Rightarrow> (sid \<rightharpoonup> ExecutionState) \<Rightarrow> bool" where
  "setsOriginating fo h h' =
     (\<forall>x. h' x = h x \<or> (\<exists>st. h x = Some st \<and> h' x = Some (st\<lparr> originatingState := Some fo \<rparr>)))"

text \<open>
  What a fork leaves of a state in the child that takes the condition \<open>c\<close>: the
  constraints of the state, then \<open>c\<close>, then what the propagation along the dependent
  chains added; the guiding constraints and the links to the dependent and the
  originating state may differ, everything else stays.
\<close>

definition constrainedBy :: "expr \<Rightarrow> ExecutionState \<Rightarrow> ExecutionState \<Rightarrow> bool" where
  "constrainedBy c st st' =
     (\<exists>cs gs orig dep. st' = st\<lparr> constraints := constraints st @ c # cs,
                                  guidingConstraints := gs, originatingState := orig,
                                  dependentState := dep \<rparr>)"

text \<open>
  A recovery state at \<open>r\<close> is well served on the heap \<open>h\<close> when its dependent state
  starts the dependent chain \<open>ds\<close> and its originating state is a normal state on the
  heap.
\<close>

definition wellServed :: "(sid \<rightharpoonup> ExecutionState) \<Rightarrow> sid \<Rightarrow> sid list \<Rightarrow> bool" where
  "wellServed h r ds =
     (case h r of
        None \<Rightarrow> False
      | Some st \<Rightarrow>
          isRecoveryState st \<and> dependentState st = Some (hd ds) \<and> dependentChain h ds \<and>
          (case originatingState st of
             None \<Rightarrow> False
           | Some orig \<Rightarrow> (case h orig of None \<Rightarrow> False | Some ost \<Rightarrow> isNormalState ost)))"

section \<open>The children of a fork\<close>


text \<open>
  \<open>childOf c ch st st'\<close>: the state \<open>st'\<close> is a child of a fork of \<open>st\<close> on the side
  that takes the condition \<open>c\<close> and records the character \<open>ch\<close>. Its constraints are
  those of \<open>st\<close>, then \<open>c\<close>, then possibly more; its branch history is that of \<open>st\<close>
  with \<open>ch\<close> appended; its depth is one more.
\<close>

definition childOf :: "expr \<Rightarrow> char \<Rightarrow> ExecutionState \<Rightarrow> ExecutionState \<Rightarrow> bool" where
  "childOf c ch st st' =
     (prefix (constraints st @ [c]) (constraints st') \<and>
      branchHist st' = branchHist st @ [ch] \<and>
      depth st' = Suc (depth st))"

text \<open>
  A worker with one fresh state at pointer 1 that carries the prefixes \<open>ps\<close>, used in
  the examples of ranging.
\<close>

definition rangingWorker :: "(string \<times> nat) list \<Rightarrow> Executor" where
  "rangingWorker ps =
     blankExecutor\<lparr> heap := [1 \<mapsto> blankState\<lparr> prefixes := ps \<rparr>], heapNext := 2, coreId := 1 \<rparr>"






text \<open>
  \<open>advances ex ex'\<close>: when the pointers from \<^verbatim>\<open>heapNext\<close> on are free in \<open>ex\<close>, they are
  free from the new \<^verbatim>\<open>heapNext\<close> on in \<open>ex'\<close>, and every state of \<open>ex\<close> is still on the
  heap of \<open>ex'\<close> at its pointer, with its depth and branch history and with constraints
  that extend its own.
\<close>

definition advances :: "Executor \<Rightarrow> Executor \<Rightarrow> bool" where
  "advances ex ex' =
     ((\<forall>n \<ge> heapNext ex. heap ex n = None) \<longrightarrow>
        (\<forall>n \<ge> heapNext ex'. heap ex' n = None) \<and>
        (\<forall>x st. heap ex x = Some st \<longrightarrow>
           (\<exists>st'. heap ex' x = Some st' \<and> depth st' = depth st \<and>
                  branchHist st' = branchHist st \<and>
                  prefix (constraints st) (constraints st'))))"

text \<open>
  A recovery state at pointer 2 that serves the suspended state at pointer 1, which is
  also its originating state; used in the example of forking a recovery state.
\<close>

definition exampleServed :: Executor where
  "exampleServed =
     blankExecutor\<lparr> heap :=
        [1 \<mapsto> blankState\<lparr> suspendStatus := True, recoveryState := Some 2 \<rparr>,
         2 \<mapsto> blankState\<lparr> stateType := RECOVERY_STATE, dependentState := Some 1,
                           originatingState := Some 1 \<rparr>],
        heapNext := 3, states := [1, 2] \<rparr>"


section \<open>Properties of the branch selection\<close>

lemma branchToTake_loop_True:
  "branchToTake_loop p0 d ps = Inr True \<Longrightarrow>
     \<exists>p \<in> set ps. \<exists>cx c0. charAt (fst p) d = Inr cx \<and> charAt p0 d = Inr c0 \<and> cx \<noteq> c0"
  by (induction ps) (auto split: sum.splits if_splits)

lemma branchToTake_loop_agree:
  "\<forall>p \<in> set ps. charAt (fst p) d = Inr c \<Longrightarrow> charAt p0 d = Inr c \<Longrightarrow>
     branchToTake_loop p0 d ps = Inr False"
  by (induction ps) auto

text \<open>
  Claim C10. \<^verbatim>\<open>branchToTake\<close> returns a value only when the character of the first
  prefix at the current depth is one of \<^verbatim>\<open>'0'\<close>, \<^verbatim>\<open>'1'\<close>, \<^verbatim>\<open>'2'\<close>, \<^verbatim>\<open>'3'\<close>, or when
  some later prefix differs from the first one at that depth. When all prefixes carry
  the same character there and it lies outside this alphabet, the function reaches its
  end without returning a value.
\<close>

theorem branchToTake_alphabet:
  "(branchToTake st fs = Inr (r, fs') \<longrightarrow>
      (\<exists>p0 ps c. prefixes st = p0 # ps \<and> charAt (fst p0) (depth st) = Inr c \<and>
         (c \<in> {CHR ''0'', CHR ''1'', CHR ''2'', CHR ''3''} \<or>
          (\<exists>p \<in> set ps. \<exists>cx. charAt (fst p) (depth st) = Inr cx \<and> cx \<noteq> c)))) \<and>
   (prefixes st = q0 # qs \<and> depth st < snd q0 \<and>
      (\<forall>p \<in> set (q0 # qs). charAt (fst p) (depth st) = Inr d) \<and>
      d \<notin> {CHR ''0'', CHR ''1'', CHR ''2'', CHR ''3''} \<longrightarrow>
      branchToTake st fs = Inl NoReturnValue)"
proof (intro conjI impI)
  assume ret: "branchToTake st fs = Inr (r, fs')"
  then obtain p0 ps where ps: "prefixes st = p0 # ps"
    by (cases "prefixes st") (auto simp: branchToTake_def)
  from ret ps obtain b where loop: "branchToTake_loop (fst p0) (depth st) ps = Inr b"
    by (auto simp: branchToTake_def split: if_splits sum.splits)
  show "\<exists>p0 ps c. prefixes st = p0 # ps \<and> charAt (fst p0) (depth st) = Inr c \<and>
         (c \<in> {CHR ''0'', CHR ''1'', CHR ''2'', CHR ''3''} \<or>
          (\<exists>p \<in> set ps. \<exists>cx. charAt (fst p) (depth st) = Inr cx \<and> cx \<noteq> c))"
  proof (cases b)
    case True
    with loop have "\<exists>p \<in> set ps. \<exists>cx c0. charAt (fst p) (depth st) = Inr cx \<and>
        charAt (fst p0) (depth st) = Inr c0 \<and> cx \<noteq> c0"
      using branchToTake_loop_True [of "fst p0" "depth st" ps] by simp
    then obtain p cx c0 where "p \<in> set ps" "charAt (fst p) (depth st) = Inr cx"
        "charAt (fst p0) (depth st) = Inr c0" "cx \<noteq> c0"
      by blast
    with ps show ?thesis
      by (intro exI [of _ p0] exI [of _ ps] exI [of _ c0]) auto
  next
    case False
    with ret ps loop show ?thesis
      by (auto simp: branchToTake_def split: if_splits sum.splits)
  qed
next
  assume h: "prefixes st = q0 # qs \<and> depth st < snd q0 \<and>
      (\<forall>p \<in> set (q0 # qs). charAt (fst p) (depth st) = Inr d) \<and>
      d \<notin> {CHR ''0'', CHR ''1'', CHR ''2'', CHR ''3''}"
  then have "branchToTake_loop (fst q0) (depth st) qs = Inr False"
    by (intro branchToTake_loop_agree [where c = d]) auto
  with h show "branchToTake st fs = Inl NoReturnValue"
    by (simp add: branchToTake_def)
qed

theorem branchToTake_alphabet_witness:
  "branchToTake (blankState\<lparr>prefixes := [(''01'', 2), (''00'', 2)], depth := 1\<rparr>) True
     = Inr (2, False) \<and>
   branchToTake (blankState\<lparr>prefixes := [(''0-'', 2), (''0-'', 2)], depth := 1\<rparr>) True
     = Inl NoReturnValue"
proof -
  let ?s1 = "blankState\<lparr>prefixes := [(''01'', 2), (''00'', 2)], depth := 1\<rparr>"
  let ?s2 = "blankState\<lparr>prefixes := [(''0-'', 2), (''0-'', 2)], depth := 1\<rparr>"
  have r1: "branchToTake ?s1 True = Inr (2, False)"
    by (simp add: branchToTake_def charAt_def)
  have "\<exists>p0 ps c. prefixes ?s1 = p0 # ps \<and> charAt (fst p0) (depth ?s1) = Inr c \<and>
         (c \<in> {CHR ''0'', CHR ''1'', CHR ''2'', CHR ''3''} \<or>
          (\<exists>p \<in> set ps. \<exists>cx. charAt (fst p) (depth ?s1) = Inr cx \<and> cx \<noteq> c))"
    using branchToTake_alphabet [where st = ?s1 and fs = True and r = 2 and fs' = False] r1
    by blast
  moreover have "branchToTake ?s2 True = Inl NoReturnValue"
    using branchToTake_alphabet [where st = ?s2 and ?q0.0 = "(''0-'', 2)"
        and qs = "[(''0-'', 2)]" and d = "CHR ''-''" and fs = True]
    by (simp add: charAt_def)
  ultimately show ?thesis using r1 by simp
qed

section \<open>The breadth-first searcher loses the minimal depth\<close>

text \<open>
  Claim C8. The searcher is to select from the bucket at \<^verbatim>\<open>currentMinDepth\<close>, and
  \<^verbatim>\<open>currentMinDepth\<close> is to be the least depth of a state it holds. The code does not keep
  this: when the depth of the current state changes and its old bucket becomes empty,
  \<^verbatim>\<open>updateDepthStateMap\<close> sets \<^verbatim>\<open>currentMinDepth\<close> to the new depth of that state without
  looking at the other buckets. Below, states 1 and 2 are added at depths 0 and 1; then
  state 1, now at depth 2, is passed as the current state. Afterwards
  \<^verbatim>\<open>currentMinDepth\<close> is 2 and \<^verbatim>\<open>selectState\<close> returns state 1, although state 2 is
  still held at depth 1.
\<close>

theorem BFSSearcher_min_depth_lost:
  "(case BFSSearcher_update (\<lambda>s. if s = 1 then 0 else 1) BFSSearcher_init None [1, 2] [] of
      Inl e \<Rightarrow> False
    | Inr s0 \<Rightarrow>
        currentMinDepth s0 = 0 \<and> selectState s0 = Inr 1 \<and>
        (case BFSSearcher_update (\<lambda>s. if s = 1 then 2 else 1) s0 (Some 1) [] [] of
           Inl e \<Rightarrow> False
         | Inr s1 \<Rightarrow>
             currentMinDepth s1 = 2 \<and> selectState s1 = Inr 1 \<and>
             bfs_states s1 = [1, 2] \<and> depthMap s1 1 = Some 2 \<and>
             depthMap s1 2 = Some 1 \<and> depthStatesMap s1 1 = Some [2]))"
  by (simp add: BFSSearcher_update_def BFSSearcher_init_def insertIntoDepthStateMap_def
      updateDepthStateMap_def selectState_def)

section \<open>Depth and branch history\<close>

lemma keepsHistories_refl: "keepsHistories h h"
  by (auto simp: keepsHistories_def)

lemma keepsHistories_trans:
  "keepsHistories h1 h2 \<Longrightarrow> keepsHistories h2 h3 \<Longrightarrow> keepsHistories h1 h3"
  unfolding keepsHistories_def by (metis)

lemma keepsHistories_inv:
  "keepsHistories h h' \<Longrightarrow> depthIsHistoryLength h \<Longrightarrow> depthIsHistoryLength h'"
  unfolding keepsHistories_def depthIsHistoryLength_def by metis

lemma keepsHistories_upd:
  "h s0 = Some st \<Longrightarrow> depth st' = depth st \<Longrightarrow> branchHist st' = branchHist st \<Longrightarrow>
   keepsHistories h (h(s \<mapsto> st'))"
  unfolding keepsHistories_def by auto

lemma keepsHistories_del: "keepsHistories h (h(s := None))"
  unfolding keepsHistories_def by auto

lemma branch_keeps: "branch ex s = Inr (n, ex') \<Longrightarrow> keepsHistories (heap ex) (heap ex')"
  by (auto simp: branch_def split: option.splits intro: keepsHistories_upd)

lemma ExecutionState_addConstraint_hist:
  "ExecutionState_addConstraint st e = Inr st' \<Longrightarrow> depth st' = depth st \<and> branchHist st' = branchHist st"
  by (auto simp: ExecutionState_addConstraint_def addGuidingConstraint_def Let_def split: if_splits)

lemma addConstraint_keeps: "addConstraint ex s c = Inr ex' \<Longrightarrow> keepsHistories (heap ex) (heap ex')"
  by (auto simp: addConstraint_def setState_def keepsHistories_refl split: expr.splits option.splits sum.splits if_splits
      dest!: ExecutionState_addConstraint_hist intro: keepsHistories_upd)

lemma noteNonRecovery_heap: "noteNonRecovery ex s = Inr ex' \<Longrightarrow> heap ex' = heap ex"
  by (auto simp: noteNonRecovery_def split: option.splits if_splits)

lemma keepsHistories_upd_same:
  "h s = Some st \<Longrightarrow> depth st' = depth st \<and> branchHist st' = branchHist st \<Longrightarrow>
   keepsHistories h (h(s \<mapsto> st'))"
  unfolding keepsHistories_def by auto

lemma terminateState_keeps: "terminateState ex s = Inr ex' \<Longrightarrow> keepsHistories (heap ex) (heap ex')"
  by (auto simp: terminateState_def Let_def split: option.splits if_splits
      intro!: keepsHistories_upd_same keepsHistories_del)

lemma terminateStateRecursively_keeps:
  assumes "terminateStateRecursively ex s = Some r"
  shows "\<forall>ex'. r = Inr ex' \<longrightarrow> keepsHistories (heap ex) (heap ex')"
proof (rule terminateStateRecursively.raw_induct
    [where P = "\<lambda>ex s r. \<forall>ex'. r = Inr ex' \<longrightarrow> keepsHistories (heap ex) (heap ex')",
      OF _ assms], goal_cases)
  case (1 f ex current r)
  from 1(2) show ?case
    by (auto split: option.splits if_splits sum.splits dest!: terminateState_keeps 1(1)
        intro: keepsHistories_trans)
qed


lemma terminateStateEarly_keeps:
  "terminateStateEarly ex s = Inr ex' \<Longrightarrow> keepsHistories (heap ex) (heap ex')"
  by (auto simp: terminateStateEarly_def split: option.splits if_splits
      dest: terminateState_keeps terminateStateRecursively_keeps)

lemma forkDependentStates_copy_keeps:
  assumes "forkDependentStates_copy ex c p = Some r"
  shows "\<forall>fo ex'. r = Inr (fo, ex') \<longrightarrow> keepsHistories (heap ex) (heap ex')"
proof (rule forkDependentStates_copy.raw_induct
    [where P = "\<lambda>ex c p r. \<forall>fo ex'. r = Inr (fo, ex') \<longrightarrow> keepsHistories (heap ex) (heap ex')",
      OF _ assms], goal_cases)
  case (1 f ex current prevForked r)
  show ?case
  proof (intro allI impI)
    fix fo ex' assume r: "r = Inr (fo, ex')"
    from 1(2) r obtain cst pst where
      c: "heap ex current = Some cst" and p: "heap ex prevForked = Some pst"
      by (auto simp: Let_def split: option.splits if_splits)
    let ?h1 = "(heap ex)(heapNext ex \<mapsto> cst\<lparr>recoveryState := Some prevForked\<rparr>,
                 prevForked \<mapsto> pst\<lparr>dependentState := Some (heapNext ex)\<rparr>)"
    have k1: "keepsHistories (heap ex) ?h1"
      using c p unfolding keepsHistories_def by auto
    from 1(2) r c p show "keepsHistories (heap ex) (heap ex')"
      by (auto simp: Let_def split: option.splits if_splits
          dest!: 1(1) intro: keepsHistories_trans [OF k1] k1)
  qed
qed

lemma forkDependentStates_originating_keeps:
  assumes "forkDependentStates_originating ex c fo = Some r"
  shows "\<forall>ex'. r = Inr ex' \<longrightarrow> keepsHistories (heap ex) (heap ex')"
proof (rule forkDependentStates_originating.raw_induct
    [where P = "\<lambda>ex c fo r. \<forall>ex'. r = Inr ex' \<longrightarrow> keepsHistories (heap ex) (heap ex')",
      OF _ assms], goal_cases)
  case (1 f ex current fo r)
  show ?case
  proof (intro allI impI)
    fix ex' assume r: "r = Inr ex'"
    show "keepsHistories (heap ex) (heap ex')"
    proof (cases "heap ex current")
      case None with 1(2) r show ?thesis by simp
    next
      case (Some cst)
      have k1: "keepsHistories (heap ex) (heap (setState ex current (cst\<lparr>originatingState := x\<rparr>)))" for x
        using Some by (auto simp: setState_def intro!: keepsHistories_upd_same)
      from 1(2) r Some show ?thesis
        by (auto simp: Let_def keepsHistories_refl split: option.splits if_splits
            dest!: 1(1) intro: keepsHistories_trans [OF k1] k1)
    qed
  qed
qed

lemma forkDependentStates_keeps:
  "forkDependentStates ex t f = Inr ex' \<Longrightarrow> keepsHistories (heap ex) (heap ex')"
  apply (auto simp: forkDependentStates_def split: option.splits if_splits sum.splits
      dest!: forkDependentStates_copy_keeps forkDependentStates_originating_keeps)
  apply (erule (1) keepsHistories_trans)
  done

lemma mergeConstraints_keeps:
  "mergeConstraints ex d c = Inr ex' \<Longrightarrow> keepsHistories (heap ex) (heap ex')"
  by (auto simp: mergeConstraints_def split: option.splits if_splits dest: addConstraint_keeps)

lemma mergeConstraintsForAll_loop_keeps:
  assumes "mergeConstraintsForAll_loop ex n c = Some r"
  shows "\<forall>ex'. r = Inr ex' \<longrightarrow> keepsHistories (heap ex) (heap ex')"
proof (rule mergeConstraintsForAll_loop.raw_induct
    [where P = "\<lambda>ex n c r. \<forall>ex'. r = Inr ex' \<longrightarrow> keepsHistories (heap ex) (heap ex')",
      OF _ assms], goal_cases)
  case (1 f ex n c r)
  from 1(2) show ?case
    by (auto split: option.splits if_splits sum.splits dest!: mergeConstraints_keeps 1(1)
        intro: keepsHistories_trans)
qed

lemma addGuidingConstraint_hist:
  "addGuidingConstraint st e = Inr st' \<Longrightarrow> depth st' = depth st \<and> branchHist st' = branchHist st"
  by (auto simp: addGuidingConstraint_def split: if_splits)

lemma mergeConstraintsForAll_keeps:
  "mergeConstraintsForAll ex s c = Inr ex' \<Longrightarrow> keepsHistories (heap ex) (heap ex')"
  apply (auto simp: mergeConstraintsForAll_def setState_def split: option.splits if_splits sum.splits
      dest!: mergeConstraintsForAll_loop_keeps addGuidingConstraint_hist)
  apply (erule keepsHistories_trans)
  apply (rule keepsHistories_upd_same)
   apply auto
  done


lemma fork_constrain_keeps:
  "fork_constrain ex t f a b c = Inr ex' \<Longrightarrow> keepsHistories (heap ex) (heap ex')"
  apply (simp add: fork_constrain_def split: sum.splits option.splits if_splits)
   apply (blast dest: addConstraint_keeps forkDependentStates_keeps mergeConstraintsForAll_keeps
      intro: keepsHistories_trans)+
  done

lemma recordBranch_inv:
  "recordBranch ex s c = Inr ex' \<Longrightarrow> depthIsHistoryLength (heap ex) \<Longrightarrow>
     depthIsHistoryLength (heap ex')"
  by (auto simp: recordBranch_def setState_def depthIsHistoryLength_def
      split: option.splits if_splits)

lemma fork_record_inv:
  "fork_record ex t f i = Inr ex' \<Longrightarrow> depthIsHistoryLength (heap ex) \<Longrightarrow>
     depthIsHistoryLength (heap ex')"
  by (auto simp: fork_record_def split: if_splits sum.splits dest: recordBranch_inv)

lemma fork_prefixes_keeps:
  "fork_prefixes ex t f = Inr ex' \<Longrightarrow> keepsHistories (heap ex) (heap ex')"
  apply (auto simp: fork_prefixes_def removeFalsePrefixes_def removeTruePrefixes_def setState_def
      keepsHistories_refl split: if_splits sum.splits option.splits)
  apply (auto simp: keepsHistories_def split: if_splits)
  done

lemma fork_replay_keeps:
  "fork_replay ex s c r p = Inr (r', ex') \<Longrightarrow> keepsHistories (heap ex) (heap ex')"
  by (auto simp: fork_replay_def Let_def keepsHistories_refl split: if_splits sum.splits
      dest!: addConstraint_keeps)

lemma fork_inhibit_keeps:
  "fork_inhibit ex s st c b = Inr (r', ex') \<Longrightarrow> keepsHistories (heap ex) (heap ex')"
  by (auto simp: fork_inhibit_def Let_def keepsHistories_refl split: if_splits sum.splits
      dest!: addConstraint_keeps)

lemma fork_adjust_keeps:
  "fork_adjust ex s c i r b = Inr (r', ex') \<Longrightarrow> keepsHistories (heap ex) (heap ex')"
  by (auto simp: fork_adjust_def keepsHistories_refl split: if_splits option.splits
      dest: fork_replay_keeps fork_inhibit_keeps)

lemma fork_true_inv:
  assumes "fork_true ex s c i fs = Inr (pr, ex')" and "depthIsHistoryLength (heap ex)"
  shows "depthIsHistoryLength (heap ex')"
proof (cases fs)
  case True
  with assms(1) obtain n ex1 ex2 ex3 ex4 where
    "branch ex s = Inr (n, ex1)" "noteNonRecovery ex1 n = Inr ex2"
    "fork_record ex2 s n i = Inr ex3" "fork_constrain ex3 s n s n c = Inr ex4"
    "heap ex' = heap ex4"
    by (auto simp: fork_true_def split: sum.splits)
  with assms(2) show ?thesis
    by (metis branch_keeps noteNonRecovery_heap fork_record_inv fork_constrain_keeps
        keepsHistories_inv)
next
  case False
  with assms show ?thesis
    by (auto simp: fork_true_def split: if_splits sum.splits dest: recordBranch_inv)
qed

lemma fork_false_inv:
  assumes "fork_false ex s c i fs = Inr (pr, ex')" and "depthIsHistoryLength (heap ex)"
  shows "depthIsHistoryLength (heap ex')"
proof (cases fs)
  case True
  with assms(1) obtain n ex1 ex2 ex3 ex4 where
    "branch (ex\<lparr> forks := Suc (forks ex) \<rparr>) s = Inr (n, ex1)" "noteNonRecovery ex1 n = Inr ex2"
    "fork_record ex2 n s i = Inr ex3" "fork_constrain ex3 n s s n c = Inr ex4"
    "heap ex' = heap ex4"
    by (auto simp: fork_false_def split: sum.splits)
  moreover have "depthIsHistoryLength (heap (ex\<lparr> forks := Suc (forks ex) \<rparr>))"
    using assms(2) by simp
  ultimately show ?thesis
    by (metis branch_keeps noteNonRecovery_heap fork_record_inv fork_constrain_keeps
        keepsHistories_inv)
next
  case False
  with assms show ?thesis
    by (auto simp: fork_false_def split: if_splits sum.splits dest: recordBranch_inv)
qed

lemma fork_unknown_inv:
  assumes "fork_unknown ex s c i = Inr (pr, ex')" and "depthIsHistoryLength (heap ex)"
  shows "depthIsHistoryLength (heap ex')"
proof -
  from assms(1) obtain n ex1 ex2 ex3 ex4 where
    "branch (ex\<lparr> forks := Suc (forks ex) \<rparr>) s = Inr (n, ex1)" "noteNonRecovery ex1 n = Inr ex2"
    "fork_prefixes (ex2\<lparr> addedStates := addedStates ex2 @ [n] \<rparr>) s n = Inr ex3"
    "fork_record ex3 s n i = Inr ex4" "fork_constrain ex4 s n s n c = Inr ex'"
    by (auto simp: fork_unknown_def split: sum.splits)
  moreover have "depthIsHistoryLength (heap (ex\<lparr> forks := Suc (forks ex) \<rparr>))"
    using assms(2) by simp
  moreover have "heap (ex2\<lparr> addedStates := addedStates ex2 @ [n] \<rparr>) = heap ex2"
    by simp
  ultimately show ?thesis
    by (metis branch_keeps noteNonRecovery_heap fork_record_inv fork_constrain_keeps
        fork_prefixes_keeps keepsHistories_inv)
qed

lemma fork_keeps_depthIsHistoryLength:
  assumes "fork ex s c i sr b = Inr (pr, ex')" and "depthIsHistoryLength (heap ex)"
  shows "depthIsHistoryLength (heap ex')"
proof -
  from assms(1) obtain st where st: "heap ex s = Some st"
    by (auto simp: fork_def split: option.splits)
  show ?thesis
  proof (cases "fork_verdict ex st i sr")
    case (Inl e) with assms(1) st show ?thesis by (simp add: fork_def)
  next
    case (Inr v)
    show ?thesis
    proof (cases v)
      case None
      have "keepsHistories (heap ex) (heap (setState ex s (st\<lparr> pc := prevPC st \<rparr>)))"
        using st by (auto simp: setState_def intro!: keepsHistories_upd_same)
      with assms st Inr None show ?thesis
        by (auto simp: fork_def split: sum.splits
            dest!: terminateStateEarly_keeps dest: keepsHistories_inv)
    next
      case (Some rf)
      obtain r0 fs where rf: "rf = (r0, fs)" by (cases rf)
      from assms(1) st Inr Some rf obtain r ex1 where
        adj: "fork_adjust ex s c i r0 b = Inr (r, ex1)" and
        rest: "(if r = VTrue then fork_true ex1 s c i fs
                else if r = VFalse then fork_false ex1 s c i fs
                else fork_unknown ex1 s c i) = Inr (pr, ex')"
        by (auto simp: fork_def split: sum.splits)
      from adj assms(2) have "depthIsHistoryLength (heap ex1)"
        by (blast dest: fork_adjust_keeps keepsHistories_inv)
      with rest show ?thesis
        by (auto split: if_splits dest: fork_true_inv fork_false_inv fork_unknown_inv)
    qed
  qed
qed

lemma fork_no_fork_records:
  assumes "heap ex s = Some st" and "coreId ex = 0 \<or> \<not> shallIRange st"
    and "replayPath ex = None"
  shows "fork ex s c False (Some VTrue) b =
           Inr ((Some s, None),
                ex\<lparr> heap := (heap ex)(s \<mapsto> st\<lparr> depth := Suc (depth st),
                                                    branchHist := branchHist st @ ''2'' \<rparr>) \<rparr>)"
    and "fork ex s c False (Some VFalse) b =
           Inr ((None, Some s),
                ex\<lparr> heap := (heap ex)(s \<mapsto> st\<lparr> depth := Suc (depth st),
                                                    branchHist := branchHist st @ ''3'' \<rparr>) \<rparr>)"
  using assms
  by (auto simp: fork_def fork_verdict_def fork_adjust_def fork_true_def fork_false_def
      recordBranch_def setState_def)

text \<open>
  Claim C1, as stated, fails. The master forks the fresh state 1 on a condition the
  solver finds true: the state is continued without a sibling, the event \<^verbatim>\<open>'2'\<close> is
  appended to its history, and its depth goes from 0 to 1, while its history still has
  no \<^verbatim>\<open>'0'\<close> and no \<^verbatim>\<open>'1'\<close>.
\<close>

theorem depth_counts_unforked_branch:
  "fork exampleMaster 1 (SymbolicExpr 0) False (Some VTrue) False =
     Inr ((Some 1, None),
          exampleMaster\<lparr> heap := [1 \<mapsto> blankState\<lparr> depth := 1, branchHist := ''2'' \<rparr>] \<rparr>) \<and>
   depth blankState = symbolicBranchCount (branchHist blankState) \<and>
   depth (blankState\<lparr> depth := 1, branchHist := ''2'' \<rparr>) \<noteq> depth blankState \<and>
   depth (blankState\<lparr> depth := 1, branchHist := ''2'' \<rparr>) \<noteq>
     symbolicBranchCount (branchHist (blankState\<lparr> depth := 1, branchHist := ''2'' \<rparr>))"
  by (simp add: fork_def fork_verdict_def exampleMaster_def blankExecutor_def fork_adjust_def
      fork_true_def recordBranch_def setState_def blankState_def symbolicBranchCount_def)

text \<open>
  Claim C1, amended. In every state depth is the length of the branch history: a call of
  \<^verbatim>\<open>fork\<close> that returns keeps this for every state on the heap, and where the verdict
  comes from the solver and is true or false, the state is continued alone with
  \<^verbatim>\<open>'2'\<close> or \<^verbatim>\<open>'3'\<close> appended to its history and its depth incremented by one.
\<close>

theorem depth_is_history_length:
  "(fork ex s c i sr b = Inr (pr, ex') \<and> depthIsHistoryLength (heap ex) \<longrightarrow>
      depthIsHistoryLength (heap ex')) \<and>
   (heap ex s = Some st \<and> (coreId ex = 0 \<or> \<not> shallIRange st) \<and> replayPath ex = None \<longrightarrow>
      fork ex s c False (Some VTrue) b =
        Inr ((Some s, None),
             ex\<lparr> heap := (heap ex)(s \<mapsto> st\<lparr> depth := Suc (depth st),
                                                 branchHist := branchHist st @ ''2'' \<rparr>) \<rparr>) \<and>
      fork ex s c False (Some VFalse) b =
        Inr ((None, Some s),
             ex\<lparr> heap := (heap ex)(s \<mapsto> st\<lparr> depth := Suc (depth st),
                                                 branchHist := branchHist st @ ''3'' \<rparr>) \<rparr>))"
  using fork_keeps_depthIsHistoryLength [of ex s c i sr b pr ex']
    fork_no_fork_records [of ex s st c b]
  by blast

theorem depth_is_history_length_witness:
  "depthIsHistoryLength (heap exampleMaster) \<and>
   fork exampleMaster 1 (SymbolicExpr 0) False (Some VFalse) False =
     Inr ((None, Some 1),
          exampleMaster\<lparr> heap := [1 \<mapsto> blankState\<lparr> depth := 1, branchHist := ''3'' \<rparr>] \<rparr>) \<and>
   depthIsHistoryLength [1 \<mapsto> blankState\<lparr> depth := 1, branchHist := ''3'' \<rparr>]"
proof -
  have inv: "depthIsHistoryLength (heap exampleMaster)"
    by (simp add: depthIsHistoryLength_def exampleMaster_def blankExecutor_def blankState_def)
  have pre: "heap exampleMaster 1 = Some blankState \<and>
      (coreId exampleMaster = 0 \<or> \<not> shallIRange blankState) \<and> replayPath exampleMaster = None"
    by (simp add: exampleMaster_def blankExecutor_def)
  have run: "fork exampleMaster 1 (SymbolicExpr 0) False (Some VFalse) False =
     Inr ((None, Some 1),
          exampleMaster\<lparr> heap := [1 \<mapsto> blankState\<lparr> depth := 1, branchHist := ''3'' \<rparr>] \<rparr>)"
    using depth_is_history_length [of exampleMaster 1 "SymbolicExpr 0" False "Some VFalse" False
        "(None, Some 1)" exampleMaster blankState] pre
    by (simp add: exampleMaster_def blankState_def)
  have "depthIsHistoryLength (heap (exampleMaster\<lparr> heap :=
          [1 \<mapsto> blankState\<lparr> depth := 1, branchHist := ''3'' \<rparr>] \<rparr>))"
    using depth_is_history_length [of exampleMaster 1 "SymbolicExpr 0" False "Some VFalse" False
        "(None, Some 1)" "exampleMaster\<lparr> heap :=
          [1 \<mapsto> blankState\<lparr> depth := 1, branchHist := ''3'' \<rparr>] \<rparr>" blankState] run inv
    by blast
  with inv run show ?thesis by simp
qed

section \<open>Offloading: what is surrendered and when the request is refused\<close>

lemma collectResumed_live:
  "\<forall>s \<in> set sts. heap ex s \<noteq> None \<Longrightarrow>
   collectResumed ex sts =
     Inr (filter (\<lambda>s. case heap ex s of None \<Rightarrow> False | Some st \<Rightarrow> \<not> isSuspended st) sts)"
  by (induction sts) (auto split: option.splits)


















lemma newCheck2Offload_refuses:
  assumes "\<not> ready2Offload ex \<or> haltExecution ex \<or> haltFromMaster ex \<or>
     (removedStates ex = [] \<and> (\<forall>s \<in> set (states ex). heap ex s \<noteq> None) \<and>
      length (liveStates ex) < 4)"
  shows "newCheck2Offload ex (Some OFFLOAD) = Inr (Some ''x'', ex\<lparr> waiting4OffloadReq := False \<rparr>)"
proof (cases "\<not> ready2Offload ex \<or> haltExecution ex \<or> haltFromMaster ex")
  case True
  then show ?thesis
    by (auto simp: newCheck2Offload_def offloadFromStatesVector_def Let_def)
next
  case False
  with assms have h: "removedStates ex = []" "\<forall>s \<in> set (states ex). heap ex s \<noteq> None"
    "length (liveStates ex) < 4" by auto
  let ?ex = "ex\<lparr> waiting4OffloadReq := True \<rparr>"
  have "collectResumed ?ex (states ?ex) = Inr (liveStates ex)"
    using collectResumed_live [of "states ?ex" ?ex] h(2) by (simp add: liveStates_def)
  with False h show ?thesis
    by (auto simp: newCheck2Offload_def offloadFromStatesVector_def Let_def)
qed



text \<open>
  Claim C9. A worker that is not ready to offload, or is halting, or holds fewer than
  four resumed states, answers \<^verbatim>\<open>OFFLOAD\<close> with the single character \<^verbatim>\<open>'x'\<close>; apart
  from the flag \<^verbatim>\<open>waiting4OffloadReq\<close> the executor is unchanged: the heap, the set
  \<^verbatim>\<open>states\<close>, the searcher, the queue of suspended states and the pool are as before.
  (In the third case the count is taken only when the worker is ready; \<^verbatim>\<open>updateStates\<close>
  has cleared \<^verbatim>\<open>removedStates\<close> before the call, and \<^verbatim>\<open>states\<close> holds valid pointers.)
\<close>

theorem offload_refused:
  assumes "\<not> ready2Offload ex \<or> haltExecution ex \<or> haltFromMaster ex \<or>
     (removedStates ex = [] \<and> (\<forall>s \<in> set (states ex). heap ex s \<noteq> None) \<and>
      length (liveStates ex) < 4)"
  shows "newCheck2Offload ex (Some OFFLOAD) = Inr (Some ''x'', ex\<lparr> waiting4OffloadReq := False \<rparr>)"
  using assms by (rule newCheck2Offload_refuses)

theorem offload_refused_witness:
  "\<not> ready2Offload (exampleWorker\<lparr> ready2Offload := False \<rparr>) \<and>
   newCheck2Offload (exampleWorker\<lparr> ready2Offload := False \<rparr>) (Some OFFLOAD) =
     Inr (Some ''x'', exampleWorker\<lparr> ready2Offload := False \<rparr>) \<and>
   removedStates (exampleWorker\<lparr> states := [2, 3, 4] \<rparr>) = [] \<and>
   liveStates (exampleWorker\<lparr> states := [2, 3, 4] \<rparr>) = [2, 3, 4] \<and>
   newCheck2Offload (exampleWorker\<lparr> states := [2, 3, 4] \<rparr>) (Some OFFLOAD) =
     Inr (Some ''x'', exampleWorker\<lparr> states := [2, 3, 4] \<rparr>)"
proof -
  let ?a = "exampleWorker\<lparr> ready2Offload := False \<rparr>"
  let ?b = "exampleWorker\<lparr> states := [2, 3, 4] \<rparr>"
  have w: "waiting4OffloadReq exampleWorker = False"
    by (simp add: exampleWorker_def blankExecutor_def)
  have a: "\<not> ready2Offload ?a" by simp
  have ra: "newCheck2Offload ?a (Some OFFLOAD) = Inr (Some ''x'', ?a)"
    using offload_refused [of ?a] a w by simp
  have live: "liveStates ?b = [2, 3, 4]"
    by (simp add: liveStates_def exampleWorker_def blankExecutor_def blankState_def isSuspended_def)
  have b: "removedStates ?b = []" "\<forall>s \<in> set (states ?b). heap ?b s \<noteq> None"
    by (simp_all add: exampleWorker_def blankExecutor_def)
  have rb: "newCheck2Offload ?b (Some OFFLOAD) = Inr (Some ''x'', ?b)"
    using offload_refused [of ?b] b live w by simp
  from a ra b(1) live rb show ?thesis by simp
qed

section \<open>Write propagation from a recovery state\<close>

text \<open>
  Claim C5. In a recovery state whose dependent state holds the object written, a store
  with a constant address equal to the address of the blocking load writes the value
  into that object in the address space of the dependent state and records it in the
  recovery cache of the dependent state under the snapshot index, the slice and the
  load address; a store with a constant address different from the load address leaves
  the whole executor, and so the dependent state, unchanged. (The caller passes
  \<^verbatim>\<open>mo->getOffsetExpr(address)\<close> as the offset, a constant when the address is one.)
\<close>

theorem recovery_write_propagates:
  assumes "heap ex s = Some st" and "isRecoveryState st" and "recoveryInfo st = Some ri"
    and "dependentState st = Some d" and "heap ex d = Some dst"
    and "addressSpace dst mo = Some os"
  shows "(\<exists>dst'. onRecoveryStateWrite ex s (ConstantExpr (loadAddr ri)) mo (ConstantExpr off) v =
              Inr (ex\<lparr> heap := (heap ex)(d \<mapsto> dst') \<rparr>) \<and>
            addressSpace dst' = (addressSpace dst)(mo \<mapsto> os(off \<mapsto> v)) \<and>
            getRecoveredValue dst' (snapshotIndex ri) (sliceId ri) (loadAddr ri) = Some (Some v)) \<and>
         (a \<noteq> loadAddr ri \<longrightarrow> onRecoveryStateWrite ex s (ConstantExpr a) mo offset v = Inr ex)"
  using assms
  by (auto simp: onRecoveryStateWrite_def setState_def updateRecoveredValue_def
      getRecoveredValue_def Let_def split: expr.splits)

theorem recovery_write_propagates_witness:
  "(\<exists>dst'. onRecoveryStateWrite exampleRecovery 2 (ConstantExpr 100) 7 (ConstantExpr 0)
              (SymbolicExpr 5) =
            Inr (exampleRecovery\<lparr> heap := (heap exampleRecovery)(1 \<mapsto> dst') \<rparr>) \<and>
          addressSpace dst' 7 = Some [0 \<mapsto> SymbolicExpr 5] \<and>
          getRecoveredValue dst' 0 3 100 = Some (Some (SymbolicExpr 5))) \<and>
   onRecoveryStateWrite exampleRecovery 2 (ConstantExpr 104) 7 (ConstantExpr 4) (SymbolicExpr 5) =
     Inr exampleRecovery"
proof -
  let ?st = "blankState\<lparr> stateType := RECOVERY_STATE, dependentState := Some 1,
                           originatingState := Some 1,
                           recoveryInfo := Some exampleRecoveryInfo \<rparr>"
  let ?dst = "blankState\<lparr> suspendStatus := True, recoveryState := Some 2,
                           addressSpace := [7 \<mapsto> Map.empty] \<rparr>"
  have h: "heap exampleRecovery 2 = Some ?st" "isRecoveryState ?st"
    "recoveryInfo ?st = Some exampleRecoveryInfo" "dependentState ?st = Some 1"
    "heap exampleRecovery 1 = Some ?dst" "addressSpace ?dst 7 = Some Map.empty"
    by (simp_all add: exampleRecovery_def blankExecutor_def isRecoveryState_def
        RECOVERY_STATE_def)
  have ri: "loadAddr exampleRecoveryInfo = 100" "snapshotIndex exampleRecoveryInfo = 0"
    "sliceId exampleRecoveryInfo = 3"
    by (simp_all add: exampleRecoveryInfo_def)
  from recovery_write_propagates [OF h, of 0 "SymbolicExpr 5" 104 "ConstantExpr 4"]
  show ?thesis unfolding ri by auto
qed

section \<open>The recovery cache and the pending queue\<close>

lemma cached_recoveredLoads [simp]:
  "cached (st\<lparr> recoveredLoads := x \<rparr>) addr ri = cached st addr ri"
  "modifyingHit (st\<lparr> recoveredLoads := x \<rparr>) addr ri = modifyingHit st addr ri"
  by (simp_all add: cached_def modifyingHit_def getRecoveredValue_def)

lemma getRecoveredValue_update:
  "getRecoveredValue (updateRecoveredValue st i s a e) i' s' a' =
     (if i' = i \<and> s' = s \<and> a' = a then Some e else getRecoveredValue st i' s' a')"
  by (auto simp: getRecoveredValue_def updateRecoveredValue_def Let_def split: option.splits)

lemma filterRequired_spec:
  "isNormalState st \<Longrightarrow> distinct (map snapshotIndex ws) \<Longrightarrow>
   \<exists>st' w. filterRequired st addr result ws =
       Inr (st', rev (filter (\<lambda>ri. \<not> cached st addr ri)
                        (takeWhile (\<lambda>ri. \<not> modifyingHit st addr ri) ws)) @ result, w) \<and>
     (\<forall>ri \<in> set (takeWhile (\<lambda>ri. \<not> modifyingHit st addr ri) ws). \<not> cached st addr ri \<longrightarrow>
        getRecoveredValue st' (snapshotIndex ri) (sliceId ri) addr = Some None) \<and>
     (\<forall>i s. (\<forall>ri \<in> set ws. snapshotIndex ri \<noteq> i) \<longrightarrow>
        getRecoveredValue st' i s addr = getRecoveredValue st i s addr)"
proof (induction ws arbitrary: st result)
  case Nil then show ?case by simp
next
  case (Cons ri rest)
  show ?case
  proof (cases "getRecoveredValue st (snapshotIndex ri) (sliceId ri) addr")
    case None
    let ?st1 = "updateRecoveredValue st (snapshotIndex ri) (sliceId ri) addr None"
    have n1: "isNormalState ?st1" using Cons.prems(1)
      by (simp add: isNormalState_def updateRecoveredValue_def Let_def)
    have same: "cached ?st1 addr r = cached st addr r \<and> modifyingHit ?st1 addr r = modifyingHit st addr r"
      if "r \<in> set rest" for r
    proof -
      from that Cons.prems(2) have "snapshotIndex r \<noteq> snapshotIndex ri"
        by (metis distinct.simps(2) image_eqI list.simps(9) set_map)
      then show ?thesis by (simp add: cached_def modifyingHit_def getRecoveredValue_update)
    qed
    have tw: "takeWhile (\<lambda>r. \<not> modifyingHit ?st1 addr r) rest =
              takeWhile (\<lambda>r. \<not> modifyingHit st addr r) rest"
      by (rule takeWhile_cong) (auto simp: same)
    have fl: "filter (\<lambda>r. \<not> cached ?st1 addr r) (takeWhile (\<lambda>r. \<not> modifyingHit st addr r) rest) =
              filter (\<lambda>r. \<not> cached st addr r) (takeWhile (\<lambda>r. \<not> modifyingHit st addr r) rest)"
      by (rule filter_cong) (auto simp: same dest: set_takeWhileD)
    from Cons.IH [OF n1, of "ri # result"] Cons.prems(2) obtain st' w where
      ih: "filterRequired ?st1 addr (ri # result) rest =
         Inr (st', rev (filter (\<lambda>r. \<not> cached ?st1 addr r)
                        (takeWhile (\<lambda>r. \<not> modifyingHit ?st1 addr r) rest)) @ ri # result, w)"
        "\<forall>r \<in> set (takeWhile (\<lambda>r. \<not> modifyingHit ?st1 addr r) rest). \<not> cached ?st1 addr r \<longrightarrow>
           getRecoveredValue st' (snapshotIndex r) (sliceId r) addr = Some None"
        "\<forall>i s. (\<forall>r \<in> set rest. snapshotIndex r \<noteq> i) \<longrightarrow>
           getRecoveredValue st' i s addr = getRecoveredValue ?st1 i s addr"
      by auto
    have nri: "\<not> cached st addr ri" "\<not> modifyingHit st addr ri"
      using None by (simp_all add: cached_def modifyingHit_def)
    have fresh: "\<forall>r \<in> set rest. snapshotIndex r \<noteq> snapshotIndex ri"
      using Cons.prems(2) by (metis distinct.simps(2) image_eqI list.simps(9) set_map)
    have own: "getRecoveredValue st' (snapshotIndex ri) (sliceId ri) addr = Some None"
      using ih(3) [rule_format, of "snapshotIndex ri" "sliceId ri"] fresh
      by (simp add: getRecoveredValue_update)
    show ?thesis
      apply (rule exI [of _ st'], rule exI [of _ w])
      apply (intro conjI)
      subgoal using None ih(1) nri by (simp add: tw fl)
      subgoal using ih(2) nri own same by (auto simp: tw dest: set_takeWhileD)
      subgoal using ih(3) by (auto simp: getRecoveredValue_update)
      done
  next
    case (Some e)
    let ?st1 = "st\<lparr> recoveredLoads := insert addr (recoveredLoads st) \<rparr>"
    have c: "cached st addr ri" using Some by (simp add: cached_def)
    show ?thesis
    proof (cases e)
      case (Some v)
      with \<open>getRecoveredValue st (snapshotIndex ri) (sliceId ri) addr = Some e\<close>
      have mh: "modifyingHit st addr ri" by (simp add: modifyingHit_def)
      show ?thesis
        apply (rule exI [of _ ?st1], rule exI [of _ "Some v"])
        using \<open>getRecoveredValue st (snapshotIndex ri) (sliceId ri) addr = Some e\<close> Some mh
          Cons.prems(1)
        by (simp add: Let_def getRecoveredValue_def)
    next
      case None
      with \<open>getRecoveredValue st (snapshotIndex ri) (sliceId ri) addr = Some e\<close>
      have mh: "\<not> modifyingHit st addr ri" by (simp add: modifyingHit_def)
      have n1: "isNormalState ?st1" using Cons.prems(1) by (simp add: isNormalState_def)
      from Cons.IH [OF n1, of result] Cons.prems(2) obtain st' w where
        ih: "filterRequired ?st1 addr result rest =
           Inr (st', rev (filter (\<lambda>r. \<not> cached st addr r)
                          (takeWhile (\<lambda>r. \<not> modifyingHit st addr r) rest)) @ result, w)"
          "\<forall>r \<in> set (takeWhile (\<lambda>r. \<not> modifyingHit st addr r) rest). \<not> cached st addr r \<longrightarrow>
             getRecoveredValue st' (snapshotIndex r) (sliceId r) addr = Some None"
          "\<forall>i s. (\<forall>r \<in> set rest. snapshotIndex r \<noteq> i) \<longrightarrow>
             getRecoveredValue st' i s addr = getRecoveredValue ?st1 i s addr"
        by auto
      show ?thesis
        apply (rule exI [of _ st'], rule exI [of _ w])
        using \<open>getRecoveredValue st (snapshotIndex ri) (sliceId ri) addr = Some e\<close> None mh c
          Cons.prems(1) ih
        by (auto simp: Let_def getRecoveredValue_def)
    qed
  qed
qed

lemma filterRequired_cache:
  "isNormalState st \<Longrightarrow> distinct (map snapshotIndex ws) \<Longrightarrow>
   filterRequired st addr result ws = Inr (st', new, w) \<Longrightarrow>
   getRecoveredValue st' i s a =
     (if a = addr \<and> (\<exists>ri \<in> set (takeWhile (\<lambda>ri. \<not> modifyingHit st addr ri) ws).
                         \<not> cached st addr ri \<and> snapshotIndex ri = i \<and> sliceId ri = s)
      then Some None else getRecoveredValue st i s a)"
proof (induction ws arbitrary: st result)
  case Nil then show ?case by simp
next
  case (Cons ri rest)
  show ?case
  proof (cases "getRecoveredValue st (snapshotIndex ri) (sliceId ri) addr")
    case None
    let ?st1 = "updateRecoveredValue st (snapshotIndex ri) (sliceId ri) addr None"
    have n1: "isNormalState ?st1" using Cons.prems(1)
      by (simp add: isNormalState_def updateRecoveredValue_def Let_def)
    have same: "cached ?st1 addr r = cached st addr r \<and> modifyingHit ?st1 addr r = modifyingHit st addr r"
      if "r \<in> set rest" for r
    proof -
      from that Cons.prems(2) have "snapshotIndex r \<noteq> snapshotIndex ri"
        by (metis distinct.simps(2) image_eqI list.simps(9) set_map)
      then show ?thesis by (simp add: cached_def modifyingHit_def getRecoveredValue_update)
    qed
    have tw: "takeWhile (\<lambda>r. \<not> modifyingHit ?st1 addr r) rest =
              takeWhile (\<lambda>r. \<not> modifyingHit st addr r) rest"
      by (rule takeWhile_cong) (auto simp: same)
    have d: "distinct (map snapshotIndex rest)" using Cons.prems(2) by simp
    have run: "filterRequired ?st1 addr (ri # result) rest = Inr (st', new, w)"
      using Cons.prems(3) None by simp
    have nri: "\<not> cached st addr ri" "\<not> modifyingHit st addr ri"
      using None by (simp_all add: cached_def modifyingHit_def)
    have ih: "getRecoveredValue st' i s a =
       (if a = addr \<and> (\<exists>r \<in> set (takeWhile (\<lambda>r. \<not> modifyingHit st addr r) rest).
                           \<not> cached st addr r \<and> snapshotIndex r = i \<and> sliceId r = s)
        then Some None else getRecoveredValue ?st1 i s a)"
      using Cons.IH [OF n1 d run] same unfolding tw
      by (auto dest: set_takeWhileD)
    show ?thesis using ih nri by (auto simp: getRecoveredValue_update)
  next
    case (Some e)
    let ?st1 = "st\<lparr> recoveredLoads := insert addr (recoveredLoads st) \<rparr>"
    have c: "cached st addr ri" using Some by (simp add: cached_def)
    have g1: "getRecoveredValue ?st1 i s a = getRecoveredValue st i s a"
      by (simp add: getRecoveredValue_def)
    show ?thesis
    proof (cases e)
      case (Some v)
      with \<open>getRecoveredValue st (snapshotIndex ri) (sliceId ri) addr = Some e\<close>
      have mh: "modifyingHit st addr ri" by (simp add: modifyingHit_def)
      have "st' = ?st1"
        using Cons.prems(1,3) \<open>getRecoveredValue st (snapshotIndex ri) (sliceId ri) addr = Some e\<close> Some
        by (simp add: Let_def)
      then show ?thesis using mh g1 by simp
    next
      case None
      with \<open>getRecoveredValue st (snapshotIndex ri) (sliceId ri) addr = Some e\<close>
      have mh: "\<not> modifyingHit st addr ri" by (simp add: modifyingHit_def)
      have n1: "isNormalState ?st1" using Cons.prems(1) by (simp add: isNormalState_def)
      have d: "distinct (map snapshotIndex rest)" using Cons.prems(2) by simp
      have run: "filterRequired ?st1 addr result rest = Inr (st', new, w)"
        using Cons.prems(1,3) \<open>getRecoveredValue st (snapshotIndex ri) (sliceId ri) addr = Some e\<close> None
        by (simp add: Let_def)
      from Cons.IH [OF n1 d run] show ?thesis using mh c g1 by auto
    qed
  qed
qed

lemma collectRequired_indices:
  "collectRequired st mods idmap inst addr sz pairs = Inr required \<Longrightarrow>
   (\<forall>ri \<in> set required. snapshotIndex ri \<in> fst ` set pairs \<and> loadAddr ri = addr) \<and>
   (distinct (map fst pairs) \<longrightarrow> distinct (map snapshotIndex required))"
proof (induction pairs arbitrary: required)
  case Nil then show ?case by simp
next
  case (Cons p rest)
  obtain index snap where p: "p = (index, snap)" by (cases p)
  show ?case
    using Cons.prems Cons.IH unfolding p
    by (fastforce split: if_splits option.splits sum.splits)
qed

lemma collectRequired_total:
  "(isRecoveryState st \<longrightarrow> recoveryInfo st \<noteq> None) \<Longrightarrow> \<forall>m \<in> set mods. idmap m \<noteq> None \<Longrightarrow>
   \<exists>required. collectRequired st mods idmap inst addr sz pairs = Inr required"
proof (induction pairs)
  case Nil then show ?case by simp
next
  case (Cons p rest)
  obtain index snap where p: "p = (index, snap)" by (cases p)
  from Cons obtain required where
    r: "collectRequired st mods idmap inst addr sz rest = Inr required" by auto
  show ?case
  proof (cases "find (\<lambda>modInfo. fst modInfo = snap_f snap) mods")
    case None
    with r Cons.prems show ?thesis unfolding p by auto
  next
    case (Some m)
    then have "m \<in> set mods" by (auto simp: find_Some_iff)
    with Cons.prems(2) obtain sl where "idmap m = Some sl" by auto
    with Some r Cons.prems show ?thesis unfolding p by auto
  qed
qed


lemma count_list_distinct: "distinct xs \<Longrightarrow> x \<in> set xs \<Longrightarrow> count_list xs x = 1"
  by (induction xs) auto

lemma getAllRecoveryInfo_spec:
  assumes n: "isNormalState st" and r: "isRecoveryState st \<longrightarrow> recoveryInfo st \<noteq> None"
    and t: "\<forall>m \<in> set mods. idmap m \<noteq> None"
  shows "\<exists>start required st' w.
           getStartingIndex st addr sz = Inr start \<and>
           collectRequired st mods idmap inst addr sz
             (drop start (zip [0 ..< length (snapshots st)] (snapshots st))) = Inr required \<and>
           getAllRecoveryInfo st inst (Some (addr, sz, site)) mods idmap result =
             Inr (True, st', filter (\<lambda>ri. \<not> cached st addr ri) (reached st addr required) @ result, w) \<and>
           distinct required \<and> distinct (map snapshotIndex required) \<and>
           (\<forall>ri \<in> set (reached st addr required). \<not> cached st addr ri \<longrightarrow>
              getRecoveredValue st' (snapshotIndex ri) (sliceId ri) addr = Some None) \<and>
           (\<forall>i s a. getRecoveredValue st' i s a =
              (if a = addr \<and> (\<exists>ri \<in> set (reached st addr required).
                                  \<not> cached st addr ri \<and> snapshotIndex ri = i \<and> sliceId ri = s)
               then Some None else getRecoveredValue st i s a))"
proof -
  from n have "\<exists>start. getStartingIndex st addr sz = Inr start"
    by (cases "writtenAddresses st addr") (auto simp: getStartingIndex_def)
  then obtain start where s: "getStartingIndex st addr sz = Inr start" by blast
  let ?pairs = "drop start (zip [0 ..< length (snapshots st)] (snapshots st))"
  from collectRequired_total [OF r t] obtain required where
    c: "collectRequired st mods idmap inst addr sz ?pairs = Inr required" by blast
  have "distinct (map fst (zip [0 ..< length (snapshots st)] (snapshots st)))" by simp
  then have "distinct (map fst ?pairs)" by (simp add: drop_map [symmetric] del: map_fst_zip)
  with collectRequired_indices [OF c] have d: "distinct (map snapshotIndex required)" by blast
  then have d': "distinct (map snapshotIndex (rev required))" by (simp add: rev_map [symmetric])
  from filterRequired_spec [OF n d', of addr result] obtain st' w where
    f: "filterRequired st addr result (rev required) =
       Inr (st', rev (filter (\<lambda>ri. \<not> cached st addr ri)
                        (takeWhile (\<lambda>ri. \<not> modifyingHit st addr ri) (rev required))) @ result, w)"
      "\<forall>ri \<in> set (takeWhile (\<lambda>ri. \<not> modifyingHit st addr ri) (rev required)).
         \<not> cached st addr ri \<longrightarrow>
         getRecoveredValue st' (snapshotIndex ri) (sliceId ri) addr = Some None"
    by blast
  have e: "rev (filter (\<lambda>ri. \<not> cached st addr ri)
              (takeWhile (\<lambda>ri. \<not> modifyingHit st addr ri) (rev required))) =
           filter (\<lambda>ri. \<not> cached st addr ri) (reached st addr required)"
    by (simp add: reached_def rev_filter)
  have "getAllRecoveryInfo st inst (Some (addr, sz, site)) mods idmap result =
             Inr (True, st', filter (\<lambda>ri. \<not> cached st addr ri) (reached st addr required) @ result, w)"
    using n s c f(1) e by (simp add: getAllRecoveryInfo_def)
  moreover have "distinct required" using d by (rule distinct_map [THEN iffD1, THEN conjunct1])
  moreover have "getRecoveredValue st' i s a =
              (if a = addr \<and> (\<exists>ri \<in> set (reached st addr required).
                                  \<not> cached st addr ri \<and> snapshotIndex ri = i \<and> sliceId ri = s)
               then Some None else getRecoveredValue st i s a)" for i s a
    using filterRequired_cache [OF n d' f(1), of i s a] by (simp add: reached_def)
  ultimately show ?thesis using s c f(2) d by (auto simp: reached_def)
qed

text \<open>
  Claim C6, as stated, fails in its second half. The load below resolves to the slice 3
  of both snapshots of \<^verbatim>\<open>exampleDependent\<close>, at the address 100. The triple of the
  second snapshot is cached with the value 42, so the walk writes that value and stops;
  the triple of the first snapshot is not in the cache, yet it is neither enqueued nor
  memoized.
\<close>

theorem uncached_slice_behind_hit_not_enqueued:
  "collectRequired exampleDependent [(9, 0)] [(9, 0) \<mapsto> 3] 0 100 4
     (drop 0 (zip [0 ..< length (snapshots exampleDependent)] (snapshots exampleDependent))) =
     Inr [exampleRequired0, exampleRequired1] \<and>
   getRecoveredValue exampleDependent (snapshotIndex exampleRequired0) (sliceId exampleRequired0) 100
     = None \<and>
   getAllRecoveryInfo exampleDependent 0 (Some (100, 4, 0)) [(9, 0)] [(9, 0) \<mapsto> 3] [] =
     Inr (True, exampleDependent\<lparr> recoveredLoads := {100} \<rparr>, [], Some (ConstantExpr 42)) \<and>
   getRecoveredValue (exampleDependent\<lparr> recoveredLoads := {100} \<rparr>)
     (snapshotIndex exampleRequired0) (sliceId exampleRequired0) 100 = None"
  by (simp add: getAllRecoveryInfo_def getStartingIndex_def exampleDependent_def
      exampleRequired0_def exampleRequired1_def blankState_def isNormalState_def
      isRecoveryState_def NORMAL_STATE_def getRecoveredValue_def upt_rec [of 0] upt_rec [of 1]
      Let_def)


text \<open>
  Claim C6, amended. For a may-blocking load of a normal state, a slice whose triple of
  snapshot index, slice and load address is already in the recovery cache, with a value
  or with the null marker, adds no entry to the list it is given (the pending queue of
  the state), and its cache entry stays as it is. A slice whose triple is not in the
  cache and which the walk reaches, that is, which lies behind the last modifying hit
  of the required list, is added exactly once and memoized with a null value at the
  same time. A slice that the walk does not reach is not added and its triple is left
  as it was in the cache: when it was not cached, it is not memoized.
\<close>

theorem recovery_slices_enqueued_once:
  assumes "isNormalState st" and "isRecoveryState st \<longrightarrow> recoveryInfo st \<noteq> None"
    and "\<forall>m \<in> set mods. idmap m \<noteq> None"
  shows "\<exists>start required st' new w.
           getStartingIndex st addr sz = Inr start \<and>
           collectRequired st mods idmap inst addr sz
             (drop start (zip [0 ..< length (snapshots st)] (snapshots st))) = Inr required \<and>
           getAllRecoveryInfo st inst (Some (addr, sz, site)) mods idmap result =
             Inr (True, st', new @ result, w) \<and>
           set new \<subseteq> set required \<and>
           (\<forall>ri \<in> set required. cached st addr ri \<longrightarrow>
              count_list new ri = 0 \<and>
              getRecoveredValue st' (snapshotIndex ri) (sliceId ri) addr =
                getRecoveredValue st (snapshotIndex ri) (sliceId ri) addr) \<and>
           (\<forall>ri \<in> set required.
              \<not> cached st addr ri \<and> ri \<in> set (reached st addr required) \<longrightarrow>
              count_list new ri = 1 \<and>
              getRecoveredValue st' (snapshotIndex ri) (sliceId ri) addr = Some None) \<and>
           (\<forall>ri \<in> set required. ri \<notin> set (reached st addr required) \<longrightarrow>
              count_list new ri = 0 \<and>
              getRecoveredValue st' (snapshotIndex ri) (sliceId ri) addr =
                getRecoveredValue st (snapshotIndex ri) (sliceId ri) addr)"
proof -
  from getAllRecoveryInfo_spec [OF assms, of addr sz inst site result]
  obtain start required st' w where
    g: "getStartingIndex st addr sz = Inr start"
      "collectRequired st mods idmap inst addr sz
         (drop start (zip [0 ..< length (snapshots st)] (snapshots st))) = Inr required"
      "getAllRecoveryInfo st inst (Some (addr, sz, site)) mods idmap result =
         Inr (True, st', filter (\<lambda>ri. \<not> cached st addr ri) (reached st addr required) @ result, w)"
      "distinct required" "distinct (map snapshotIndex required)"
      "\<forall>ri \<in> set (reached st addr required). \<not> cached st addr ri \<longrightarrow>
         getRecoveredValue st' (snapshotIndex ri) (sliceId ri) addr = Some None"
      "\<forall>i s a. getRecoveredValue st' i s a =
              (if a = addr \<and> (\<exists>ri \<in> set (reached st addr required).
                                  \<not> cached st addr ri \<and> snapshotIndex ri = i \<and> sliceId ri = s)
               then Some None else getRecoveredValue st i s a)"
    by blast
  let ?new = "filter (\<lambda>ri. \<not> cached st addr ri) (reached st addr required)"
  have sub: "set (reached st addr required) \<subseteq> set required"
    by (auto simp: reached_def dest: set_takeWhileD)
  have dr: "distinct (reached st addr required)"
    using g(4) by (simp add: reached_def distinct_takeWhile)
  have dn: "distinct ?new" using dr by simp
  have one: "count_list ?new ri = 1"
    if "\<not> cached st addr ri" "ri \<in> set (reached st addr required)" for ri
    using that dn by (intro count_list_distinct) auto
  have inj: "r = ri" if "r \<in> set required" "ri \<in> set required"
    "snapshotIndex r = snapshotIndex ri" for r ri
    using that g(5) by (meson distinct_map inj_on_def)
  have keep: "getRecoveredValue st' (snapshotIndex ri) (sliceId ri) addr =
                getRecoveredValue st (snapshotIndex ri) (sliceId ri) addr"
    if ri: "ri \<in> set required" "cached st addr ri \<or> ri \<notin> set (reached st addr required)" for ri
  proof -
    have "\<not> (\<exists>r \<in> set (reached st addr required).
               \<not> cached st addr r \<and> snapshotIndex r = snapshotIndex ri \<and> sliceId r = sliceId ri)"
    proof
      assume "\<exists>r \<in> set (reached st addr required).
               \<not> cached st addr r \<and> snapshotIndex r = snapshotIndex ri \<and> sliceId r = sliceId ri"
      then obtain r where r: "r \<in> set (reached st addr required)" "\<not> cached st addr r"
        "snapshotIndex r = snapshotIndex ri" by blast
      then have "r = ri" using inj sub ri(1) by blast
      with r ri(2) show False by blast
    qed
    then show ?thesis
      using g(7) [rule_format, of "snapshotIndex ri" "sliceId ri" addr] by auto
  qed
  show ?thesis
    apply (rule exI [of _ start], rule exI [of _ required], rule exI [of _ st'],
        rule exI [of _ ?new], rule exI [of _ w])
    using g(1-3) g(6) sub one keep by (auto simp: count_list_0_iff)
qed

theorem recovery_slices_enqueued_once_witness:
  "isNormalState exampleThreeSnapshots \<and> \<not> isRecoveryState exampleThreeSnapshots \<and>
   cached exampleThreeSnapshots 100 exampleRequired1 \<and>
   \<not> cached exampleThreeSnapshots 100 exampleRequired2 \<and>
   \<not> cached exampleThreeSnapshots 100 exampleRequired0 \<and>
   reached exampleThreeSnapshots 100 [exampleRequired0, exampleRequired1, exampleRequired2]
     = [exampleRequired2] \<and>
   (\<exists>st' new w.
      getAllRecoveryInfo exampleThreeSnapshots 0 (Some (100, 4, 0)) [(9, 0)] [(9, 0) \<mapsto> 3] [] =
        Inr (True, st', new @ [], w) \<and>
      count_list new exampleRequired2 = 1 \<and> getRecoveredValue st' 2 3 100 = Some None \<and>
      count_list new exampleRequired1 = 0 \<and>
      getRecoveredValue st' 1 3 100 = Some (Some (ConstantExpr 42)) \<and>
      count_list new exampleRequired0 = 0 \<and> getRecoveredValue st' 0 3 100 = None)"
proof -
  let ?st = exampleThreeSnapshots
  have n: "isNormalState ?st" and r: "\<not> isRecoveryState ?st"
    by (simp_all add: exampleThreeSnapshots_def exampleDependent_def blankState_def
        isNormalState_def isRecoveryState_def NORMAL_STATE_def)
  have t: "\<forall>m \<in> set [(9::nat, 0::nat)]. [(9, 0) \<mapsto> 3::nat] m \<noteq> None" by simp
  have v: "getRecoveredValue ?st 0 3 100 = None"
    "getRecoveredValue ?st 1 3 100 = Some (Some (ConstantExpr 42))"
    "getRecoveredValue ?st 2 3 100 = None"
    "getRecoveredValue ?st (Suc 0) 3 100 = Some (Some (ConstantExpr 42))"
    by (simp_all add: getRecoveredValue_def exampleThreeSnapshots_def exampleDependent_def)
  have ix: "snapshotIndex exampleRequired0 = 0" "sliceId exampleRequired0 = 3"
    "snapshotIndex exampleRequired1 = 1" "sliceId exampleRequired1 = 3"
    "snapshotIndex exampleRequired2 = 2" "sliceId exampleRequired2 = 3"
    by (simp_all add: exampleRequired0_def exampleRequired1_def exampleRequired2_def)
  have c: "cached ?st 100 exampleRequired1" "\<not> cached ?st 100 exampleRequired2"
    "\<not> cached ?st 100 exampleRequired0"
    by (simp_all add: cached_def ix v)
  have mh: "modifyingHit ?st 100 exampleRequired1" "\<not> modifyingHit ?st 100 exampleRequired2"
    by (simp_all add: modifyingHit_def ix v)
  have re: "reached ?st 100 [exampleRequired0, exampleRequired1, exampleRequired2]
              = [exampleRequired2]"
    by (simp add: reached_def mh)
  have s0: "getStartingIndex ?st 100 4 = Inr 0"
    using n by (simp add: getStartingIndex_def exampleThreeSnapshots_def exampleDependent_def
        blankState_def)
  have req: "collectRequired ?st [(9, 0)] [(9, 0) \<mapsto> 3] 0 100 4
     (drop 0 (zip [0 ..< length (snapshots ?st)] (snapshots ?st))) =
     Inr [exampleRequired0, exampleRequired1, exampleRequired2]"
    using r by (simp add: exampleThreeSnapshots_def exampleDependent_def exampleRequired0_def
        exampleRequired1_def exampleRequired2_def upt_rec [of 0] upt_rec [of 1] upt_rec [of 2])
  have ne: "exampleRequired0 \<noteq> exampleRequired2" "exampleRequired1 \<noteq> exampleRequired2"
    by (simp_all add: exampleRequired0_def exampleRequired1_def exampleRequired2_def)
  from recovery_slices_enqueued_once [of ?st "[(9, 0)]" "[(9, 0) \<mapsto> 3]"
      100 4 0 0 "[]"] n r t
  obtain start required st' new w where
    g: "getStartingIndex ?st 100 4 = Inr start"
      "collectRequired ?st [(9, 0)] [(9, 0) \<mapsto> 3] 0 100 4
         (drop start (zip [0 ..< length (snapshots ?st)] (snapshots ?st))) = Inr required"
      "getAllRecoveryInfo ?st 0 (Some (100, 4, 0)) [(9, 0)] [(9, 0) \<mapsto> 3] [] =
         Inr (True, st', new @ [], w)"
      "\<forall>ri \<in> set required. cached ?st 100 ri \<longrightarrow>
              count_list new ri = 0 \<and>
              getRecoveredValue st' (snapshotIndex ri) (sliceId ri) 100 =
                getRecoveredValue ?st (snapshotIndex ri) (sliceId ri) 100"
      "\<forall>ri \<in> set required.
              \<not> cached ?st 100 ri \<and> ri \<in> set (reached ?st 100 required) \<longrightarrow>
              count_list new ri = 1 \<and>
              getRecoveredValue st' (snapshotIndex ri) (sliceId ri) 100 = Some None"
      "\<forall>ri \<in> set required. ri \<notin> set (reached ?st 100 required) \<longrightarrow>
              count_list new ri = 0 \<and>
              getRecoveredValue st' (snapshotIndex ri) (sliceId ri) 100 =
                getRecoveredValue ?st (snapshotIndex ri) (sliceId ri) 100"
    by blast
  from g(1) s0 have "start = 0" by simp
  with g(2) req have rq: "required = [exampleRequired0, exampleRequired1, exampleRequired2]"
    by simp
  have a2: "count_list new exampleRequired2 = 1 \<and> getRecoveredValue st' 2 3 100 = Some None"
    using g(5) c(2) unfolding rq re by (simp add: ix)
  have a1: "count_list new exampleRequired1 = 0 \<and>
            getRecoveredValue st' 1 3 100 = Some (Some (ConstantExpr 42))"
    using g(4) c(1) unfolding rq by (simp add: ix v)
  have a0: "count_list new exampleRequired0 = 0 \<and> getRecoveredValue st' 0 3 100 = None"
    using g(6) ne unfolding rq re by (simp add: ix v)
  from g(3) a0 a1 a2 n r c re show ?thesis by blast
qed

section \<open>The return of a recovery state\<close>

lemma replicateBranchHist_ok:
  "heap ex a = Some sa \<Longrightarrow> heap ex b = Some sb \<Longrightarrow> depth sb \<le> depth sa \<Longrightarrow>
   replicateBranchHist ex a b =
     Inr (setState ex b
            (sb\<lparr> branchHist := branchHist sb @ drop (length (branchHist sb)) (branchHist sa),
                 depth := depth sa, prefixes := prefixes sa \<rparr>))"
  by (simp add: replicateBranchHist_def)

lemma addConstraints_ok:
  "heap ex r = Some rs \<Longrightarrow> isRecoveryState rs \<Longrightarrow> \<forall>c \<in> set cs. admissibleConstraint c \<Longrightarrow>
   addConstraints ex r cs =
     Inr (setState ex r
            (rs\<lparr> constraints := constraints rs @ filter (\<lambda>c. \<not> isConstantExpr c) cs \<rparr>))"
proof (induction cs arbitrary: ex rs)
  case Nil
  then show ?case by (simp add: setState_def map_upd_triv)
next
  case (Cons c cs)
  show ?case
  proof (cases "isConstantExpr c")
    case True
    then obtain n where c: "c = ConstantExpr n" by (cases c) auto
    with Cons.prems have "n = 1" by (simp add: admissibleConstraint_def)
    with c Cons show ?thesis by (simp add: addConstraint_def)
  next
    case False
    let ?rs1 = "rs\<lparr> constraints := constraints rs @ [c] \<rparr>"
    have a: "addConstraint ex r c = Inr (setState ex r ?rs1)"
      using False Cons.prems(1,2)
      by (cases c) (auto simp: addConstraint_def ExecutionState_addConstraint_def Let_def
          isRecoveryState_def)
    have "addConstraints (setState ex r ?rs1) r cs =
       Inr (setState (setState ex r ?rs1) r
            (?rs1\<lparr> constraints := constraints ?rs1 @ filter (\<lambda>c. \<not> isConstantExpr c) cs \<rparr>))"
      using Cons.prems by (intro Cons.IH) (auto simp: setState_def isRecoveryState_def)
    with a False show ?thesis by (simp add: setState_def)
  qed
qed


lemma initRecoveryState_ok:
  assumes "isNormalState st"
    and "snapshotIndex ri \<noteq> 0 \<longrightarrow> guidingConstraints snapSt = [] \<and> pendingRecoveryInfos snapSt = []"
  shows "initRecoveryState snapSt st ri =
           Inr (if snapshotIndex ri = 0 then snapSt\<lparr> stateType := RECOVERY_STATE \<rparr>
                else snapSt\<lparr> stateType := NORMAL_STATE + RECOVERY_STATE,
                             suspendStatus := False, recoveryState := None,
                             blockingLoadStatus := True, recoveredLoads := {},
                             recoveryCache := recoveryCache st,
                             allocationRecord := allocationRecord st \<rparr>)"
  using assms by (simp add: initRecoveryState_def Let_def)

lemma startRecoveryState_ok:
  assumes d: "heap ex d = Some dst" and nd: "isNormalState dst"
    and p: "heap ex (snap_state (snapshot ri)) = Some snapSt"
    and e: "snapshotIndex ri \<noteq> 0 \<longrightarrow>
              guidingConstraints snapSt = [] \<and> pendingRecoveryInfos snapSt = []"
    and o: "(if isRecoveryState dst then originatingState dst else Some d) = Some orig"
    and ho: "heap ex orig = Some ost" and no: "isNormalState ost"
    and adm: "\<forall>c \<in> set (guidingConstraints ost). admissibleConstraint c"
    and fresh: "heap ex (heapNext ex) = None"
    and dep: "depth snapSt \<le> depth dst"
  shows "startRecoveryState ex d ri =
           Inr (ex\<lparr> heap := (heap ex)
                  (d \<mapsto> dst\<lparr> recoveryState := Some (heapNext ex) \<rparr>,
                   heapNext ex \<mapsto>
                     (if snapshotIndex ri = 0 then snapSt\<lparr> stateType := RECOVERY_STATE \<rparr>
                      else snapSt\<lparr> stateType := NORMAL_STATE + RECOVERY_STATE,
                                   suspendStatus := False, recoveryState := None,
                                   blockingLoadStatus := True, recoveredLoads := {},
                                   recoveryCache := recoveryCache dst,
                                   allocationRecord := allocationRecord dst \<rparr>)
                     \<lparr> exitInst := pc snapSt, dependentState := Some d,
                       originatingState := Some orig, recoveryInfo := Some ri,
                       guidingAllocationRecord := allocationRecord dst,
                       level := (if isRecoveryState dst then level dst + 1 else 0),
                       constraints := constraints snapSt @
                          filter (\<lambda>c. \<not> isConstantExpr c) (guidingConstraints ost),
                       pc := prevPC snapSt, priority := PRIORITY_HIGH,
                       branchHist := branchHist snapSt @
                          drop (length (branchHist snapSt)) (branchHist dst),
                       depth := depth dst, prefixes := prefixes dst \<rparr>),
                    heapNext := Suc (heapNext ex),
                    addedStates := addedStates ex @ [heapNext ex] \<rparr>)"
proof -
  let ?r = "heapNext ex"
  define rs0 where "rs0 = (if snapshotIndex ri = 0 then snapSt\<lparr> stateType := RECOVERY_STATE \<rparr>
                else snapSt\<lparr> stateType := NORMAL_STATE + RECOVERY_STATE,
                             suspendStatus := False, recoveryState := None,
                             blockingLoadStatus := True, recoveredLoads := {},
                             recoveryCache := recoveryCache dst,
                             allocationRecord := allocationRecord dst \<rparr>)"
  have i0: "initRecoveryState snapSt dst ri = Inr rs0"
    using initRecoveryState_ok [OF nd e] by (simp add: rs0_def)
  have f0: "isRecoveryState rs0" "depth rs0 = depth snapSt" "constraints rs0 = constraints snapSt"
    "prevPC rs0 = prevPC snapSt" "branchHist rs0 = branchHist snapSt"
    by (simp_all add: rs0_def isRecoveryState_def RECOVERY_STATE_def NORMAL_STATE_def)
  have ne: "?r \<noteq> d" "?r \<noteq> orig" using fresh d ho by auto
  let ?rs1 = "rs0\<lparr> exitInst := pc snapSt, dependentState := Some d,
                      originatingState := Some orig, recoveryInfo := Some ri,
                      guidingAllocationRecord := allocationRecord dst,
                      level := (if isRecoveryState dst then level dst + 1 else 0) \<rparr>"
  let ?ex1 = "ex\<lparr> heap := (heap ex)(?r \<mapsto> ?rs1), heapNext := Suc (heapNext ex) \<rparr>"
  let ?rs2 = "?rs1\<lparr> constraints := constraints ?rs1 @
                 filter (\<lambda>c. \<not> isConstantExpr c) (guidingConstraints ost) \<rparr>"
  have rec1: "isRecoveryState ?rs1" using f0(1) by (simp add: isRecoveryState_def)
  have ac: "addConstraints ?ex1 ?r (guidingConstraints ost) = Inr (setState ?ex1 ?r ?rs2)"
    using rec1 adm by (intro addConstraints_ok) auto
  let ?ex2 = "setState ?ex1 ?r ?rs2"
  let ?rs3 = "?rs2\<lparr> pc := prevPC ?rs2, priority := PRIORITY_HIGH \<rparr>"
  let ?dst3 = "dst\<lparr> recoveryState := Some ?r \<rparr>"
  let ?ex3 = "?ex2\<lparr> heap := (heap ?ex2)(?r \<mapsto> ?rs3, d \<mapsto> ?dst3),
                    addedStates := addedStates ?ex2 @ [?r] \<rparr>"
  have h2: "heap ?ex2 ?r = Some ?rs2" "heap ?ex2 d = Some dst"
    using ne d by (simp_all add: setState_def)
  have h3: "heap ?ex3 d = Some ?dst3" "heap ?ex3 ?r = Some ?rs3"
    using ne by (simp_all add: setState_def)
  have dp: "depth ?rs3 \<le> depth ?dst3" using f0(2) dep by simp
  note rb = replicateBranchHist_ok [OF h3 dp]
  let ?rs = "?rs3\<lparr> branchHist := branchHist ?rs3 @ drop (length (branchHist ?rs3)) (branchHist ?dst3),
                 depth := depth ?dst3, prefixes := prefixes ?dst3 \<rparr>"
  have run: "startRecoveryState ex d ri = replicateBranchHist ?ex3 d ?r"
    using p d i0 nd o ho no ac h2
    by (simp add: startRecoveryState_def Let_def)
  have fin: "setState ?ex3 ?r ?rs =
      ex\<lparr> heap := (heap ex)(d \<mapsto> ?dst3, ?r \<mapsto> ?rs), heapNext := Suc (heapNext ex),
           addedStates := addedStates ex @ [?r] \<rparr>"
    using ne by (simp add: setState_def fun_upd_twist)
  have eq: "?rs = rs0\<lparr> exitInst := pc snapSt, dependentState := Some d,
                       originatingState := Some orig, recoveryInfo := Some ri,
                       guidingAllocationRecord := allocationRecord dst,
                       level := (if isRecoveryState dst then level dst + 1 else 0),
                       constraints := constraints snapSt @
                          filter (\<lambda>c. \<not> isConstantExpr c) (guidingConstraints ost),
                       pc := prevPC snapSt, priority := PRIORITY_HIGH,
                       branchHist := branchHist snapSt @
                          drop (length (branchHist snapSt)) (branchHist dst),
                       depth := depth dst, prefixes := prefixes dst \<rparr>"
    using f0 by simp
  show ?thesis
    using run rb fin unfolding eq rs0_def by simp
qed

lemma terminateState_ok:
  "heap ex s = Some st \<Longrightarrow>
   terminateState ex s =
     Inr (if s \<notin> set (addedStates ex)
          then ex\<lparr> nonRecoveryStates := nonRecoveryStates ex - {s},
                   heap := (heap ex)(s \<mapsto> st\<lparr> pc := prevPC st \<rparr>),
                   removedStates := removedStates ex @ [s] \<rparr>
          else ex\<lparr> nonRecoveryStates := nonRecoveryStates ex - {s},
                   addedStates := remove1 s (addedStates ex),
                   heap := (heap ex)(s := None) \<rparr>)"
  by (simp add: terminateState_def Let_def)

lemma onRecoveryStateExit_chains:
  assumes s: "heap ex s = Some st" and rs: "isRecoveryState st"
    and ds: "dependentState st = Some d" and ne: "d \<noteq> s"
    and d: "heap ex d = Some dst" and nd: "isNormalState dst"
    and dp: "depth dst \<le> depth st"
    and pend: "pendingRecoveryInfos dst = ri # rest"
    and p: "heap ex (snap_state (snapshot ri)) = Some snapSt" and pd: "snap_state (snapshot ri) \<noteq> d"
    and e: "snapshotIndex ri \<noteq> 0 \<longrightarrow>
              guidingConstraints snapSt = [] \<and> pendingRecoveryInfos snapSt = []"
    and o: "(if isRecoveryState dst then originatingState dst else Some d) = Some orig"
    and ho: "heap ex orig = Some ost" and no: "isNormalState ost"
    and adm: "\<forall>c \<in> set (guidingConstraints ost). admissibleConstraint c"
    and fresh: "heap ex (heapNext ex) = None"
    and dsn: "depth snapSt \<le> depth st"
  shows "\<exists>ex' dst' rst.
           onRecoveryStateExit ex s = Inr ex' \<and>
           heap ex' d = Some dst' \<and>
           dst' = dst\<lparr> pendingRecoveryInfos := rest,
                         branchHist := branchHist dst @ drop (length (branchHist dst)) (branchHist st),
                         depth := depth st, prefixes := prefixes st,
                         recoveryState := Some (heapNext ex) \<rparr> \<and>
           pendingRecoveryInfos dst' = rest \<and>
           suspendStatus dst' = suspendStatus dst \<and> recoveryState dst' = Some (heapNext ex) \<and>
           heap ex' (heapNext ex) = Some rst \<and>
           rst = (if snapshotIndex ri = 0 then snapSt\<lparr> stateType := RECOVERY_STATE \<rparr>
                    else snapSt\<lparr> stateType := NORMAL_STATE + RECOVERY_STATE,
                                 suspendStatus := False, recoveryState := None,
                                 blockingLoadStatus := True, recoveredLoads := {},
                                 recoveryCache := recoveryCache dst,
                                 allocationRecord := allocationRecord dst \<rparr>)
                   \<lparr> exitInst := pc snapSt, dependentState := Some d,
                     originatingState := Some orig, recoveryInfo := Some ri,
                     guidingAllocationRecord := allocationRecord dst,
                     level := (if isRecoveryState dst then level dst + 1 else 0),
                     constraints := constraints snapSt @
                        filter (\<lambda>c. \<not> isConstantExpr c) (guidingConstraints ost),
                     pc := prevPC snapSt, priority := PRIORITY_HIGH,
                     branchHist := branchHist snapSt @
                        drop (length (branchHist snapSt))
                          (branchHist dst @ drop (length (branchHist dst)) (branchHist st)),
                     depth := depth st, prefixes := prefixes st \<rparr> \<and>
           isRecoveryState rst \<and>
           recoveryInfo rst = Some ri \<and> dependentState rst = Some d \<and>
           heapNext ex \<in> set (addedStates ex') \<and> d \<notin> set (addedStates ex') - set (addedStates ex) \<and>
           resumedStates ex' = resumedStates ex \<and>
           (s \<notin> set (addedStates ex) \<longrightarrow> removedStates ex' = removedStates ex @ [s]) \<and>
           (s \<in> set (addedStates ex) \<longrightarrow> heap ex' s = None \<and> s \<notin> set (addedStates ex') - set (addedStates ex))"
proof -
  let ?r = "heapNext ex"
  have nr: "?r \<noteq> d" "?r \<noteq> s" using fresh d s by auto
  let ?dst0 = "dst\<lparr> pendingRecoveryInfos := rest \<rparr>"
  let ?ex0 = "setState ex d ?dst0"
  have h0: "heap ?ex0 s = Some st" "heap ?ex0 d = Some ?dst0"
    using ne s by (simp_all add: setState_def)
  have dp0: "depth ?dst0 \<le> depth st" using dp by simp
  define dst1 where "dst1 = ?dst0\<lparr> branchHist := branchHist ?dst0 @ drop (length (branchHist ?dst0)) (branchHist st),
                        depth := depth st, prefixes := prefixes st \<rparr>"
  define ex1 where "ex1 = setState ?ex0 d dst1"
  have rb: "replicateBranchHist ?ex0 s d = Inr ex1"
    using replicateBranchHist_ok [OF h0 dp0] by (simp add: ex1_def dst1_def)
  have h1: "heap ex1 d = Some dst1" by (simp add: ex1_def setState_def)
  have n1: "isNormalState dst1" using nd by (simp add: dst1_def isNormalState_def)
  have p1: "heap ex1 (snap_state (snapshot ri)) = Some snapSt"
    using p pd by (simp add: ex1_def setState_def)
  have o1: "(if isRecoveryState dst1 then originatingState dst1 else Some d) = Some orig"
    using o by (auto simp: dst1_def isRecoveryState_def split: if_splits)
  obtain ost1 where ost1: "heap ex1 orig = Some ost1" "isNormalState ost1"
    "guidingConstraints ost1 = guidingConstraints ost"
  proof (cases "orig = d")
    case True
    with ho d have "ost = dst" by simp
    with True that [of dst1] h1 n1 show ?thesis by (simp add: dst1_def)
  next
    case False
    with that [of ost] ho no show ?thesis by (simp add: ex1_def setState_def)
  qed
  have adm1: "\<forall>c \<in> set (guidingConstraints ost1). admissibleConstraint c"
    using adm ost1(3) by simp
  have hn1: "heapNext ex1 = ?r" "addedStates ex1 = addedStates ex"
    by (simp_all add: ex1_def setState_def)
  have fresh1: "heap ex1 (heapNext ex1) = None"
    using fresh nr by (simp add: ex1_def setState_def)
  have dsn1: "depth snapSt \<le> depth dst1" using dsn by (simp add: dst1_def)
  define rst where "rst = (if snapshotIndex ri = 0 then snapSt\<lparr> stateType := RECOVERY_STATE \<rparr>
                    else snapSt\<lparr> stateType := NORMAL_STATE + RECOVERY_STATE,
                                 suspendStatus := False, recoveryState := None,
                                 blockingLoadStatus := True, recoveredLoads := {},
                                 recoveryCache := recoveryCache dst,
                                 allocationRecord := allocationRecord dst \<rparr>)
                   \<lparr> exitInst := pc snapSt, dependentState := Some d,
                     originatingState := Some orig, recoveryInfo := Some ri,
                     guidingAllocationRecord := allocationRecord dst,
                     level := (if isRecoveryState dst then level dst + 1 else 0),
                     constraints := constraints snapSt @
                        filter (\<lambda>c. \<not> isConstantExpr c) (guidingConstraints ost),
                     pc := prevPC snapSt, priority := PRIORITY_HIGH,
                     branchHist := branchHist snapSt @
                        drop (length (branchHist snapSt))
                          (branchHist dst @ drop (length (branchHist dst)) (branchHist st)),
                     depth := depth st, prefixes := prefixes st \<rparr>"
  define dst2 where "dst2 = dst\<lparr> pendingRecoveryInfos := rest,
                         branchHist := branchHist dst @ drop (length (branchHist dst)) (branchHist st),
                         depth := depth st, prefixes := prefixes st,
                         recoveryState := Some (heapNext ex) \<rparr>"
  define ex2 where "ex2 = ex1\<lparr> heap := (heap ex1)(d \<mapsto> dst2, ?r \<mapsto> rst),
                      heapNext := Suc ?r, addedStates := addedStates ex @ [?r] \<rparr>"
  have f1: "recoveryCache dst1 = recoveryCache dst" "allocationRecord dst1 = allocationRecord dst"
    "isRecoveryState dst1 = isRecoveryState dst" "level dst1 = level dst"
    "branchHist dst1 = branchHist dst @ drop (length (branchHist dst)) (branchHist st)"
    "depth dst1 = depth st" "prefixes dst1 = prefixes st"
    "dst1\<lparr> recoveryState := Some ?r \<rparr> = dst2"
    by (simp_all add: dst1_def dst2_def isRecoveryState_def)
  have st': "startRecoveryState ex1 d ri = Inr ex2"
    using startRecoveryState_ok [OF h1 n1 p1 e o1 ost1(1,2) adm1 fresh1 dsn1]
    unfolding hn1 f1 ost1(3) by (simp add: ex2_def rst_def)
  have h2: "heap ex2 s = Some st" using s ne nr by (simp add: ex2_def ex1_def setState_def)
  have hd2: "heap ex2 d = Some dst2" "heap ex2 ?r = Some rst"
    using nr by (simp_all add: ex2_def)
  have a2: "addedStates ex2 = addedStates ex @ [?r]" "resumedStates ex2 = resumedStates ex"
    "removedStates ex2 = removedStates ex"
    by (simp_all add: ex2_def ex1_def setState_def)
  have run: "onRecoveryStateExit ex s = terminateState ex2 s"
    using s rs ds d pend rb st' by (simp add: onRecoveryStateExit_def)
  define ex3 where "ex3 = (if s \<notin> set (addedStates ex2)
          then ex2\<lparr> nonRecoveryStates := nonRecoveryStates ex2 - {s},
                   heap := (heap ex2)(s \<mapsto> st\<lparr> pc := prevPC st \<rparr>),
                   removedStates := removedStates ex2 @ [s] \<rparr>
          else ex2\<lparr> nonRecoveryStates := nonRecoveryStates ex2 - {s},
                   addedStates := remove1 s (addedStates ex2),
                   heap := (heap ex2)(s := None) \<rparr>)"
  have fin: "onRecoveryStateExit ex s = Inr ex3"
    using run terminateState_ok [OF h2] by (simp add: ex3_def)
  have r1: "isRecoveryState rst" "recoveryInfo rst = Some ri" "dependentState rst = Some d"
    by (simp_all add: rst_def isRecoveryState_def RECOVERY_STATE_def NORMAL_STATE_def)
  have d1: "pendingRecoveryInfos dst2 = rest" "suspendStatus dst2 = suspendStatus dst"
    "recoveryState dst2 = Some ?r"
    by (simp_all add: dst2_def)
  have g1: "heap ex3 d = Some dst2" "heap ex3 ?r = Some rst"
    using hd2 ne nr by (auto simp: ex3_def)
  have g2: "?r \<in> set (addedStates ex3)"
    using a2(1) nr by (auto simp: ex3_def)
  have g3: "d \<notin> set (addedStates ex3) - set (addedStates ex)"
    using a2(1) nr set_remove1_subset [of s "addedStates ex @ [heapNext ex]"]
    by (auto simp: ex3_def)
  have g4: "resumedStates ex3 = resumedStates ex" using a2(2) by (simp add: ex3_def)
  have g5: "s \<notin> set (addedStates ex) \<longrightarrow> removedStates ex3 = removedStates ex @ [s]"
    using a2 nr by (auto simp: ex3_def)
  have g6: "s \<in> set (addedStates ex) \<longrightarrow>
              heap ex3 s = None \<and> s \<notin> set (addedStates ex3) - set (addedStates ex)"
    using a2 nr set_remove1_subset [of s "addedStates ex @ [heapNext ex]"]
    by (auto simp: ex3_def)
  show ?thesis
    apply (rule exI [of _ ex3], rule exI [of _ dst2], rule exI [of _ rst])
    using fin g1 g2 g3 g4 g5 g6 r1 d1
    unfolding rst_def [symmetric] dst2_def [symmetric] by simp
qed


lemma onRecoveryStateExit_notifies:
  assumes s: "heap ex s = Some st" and rs: "isRecoveryState st"
    and ds: "dependentState st = Some d" and ne: "d \<noteq> s"
    and d: "heap ex d = Some dst" and nd: "isNormalState dst"
    and dp: "depth dst \<le> depth st"
    and pend: "pendingRecoveryInfos dst = []"
  shows "\<exists>ex' dst'.
           onRecoveryStateExit ex s = Inr ex' \<and>
           heap ex' d = Some dst' \<and>
           (isNormalState st \<longrightarrow> allocationRecord dst' = allocationRecord st) \<and>
           (\<not> isNormalState st \<longrightarrow> allocationRecord dst' = allocationRecord dst) \<and>
           \<not> isSuspended dst' \<and> \<not> blockingLoadStatus dst' \<and> recoveryState dst' = None \<and>
           (d \<in> set (states ex) \<longrightarrow>
              resumedStates ex' = resumedStates ex @ [d] \<and> set (addedStates ex') \<subseteq> set (addedStates ex)) \<and>
           (d \<notin> set (states ex) \<longrightarrow>
              d \<in> set (addedStates ex') \<and> resumedStates ex' = resumedStates ex) \<and>
           (s \<notin> set (addedStates ex) \<longrightarrow> removedStates ex' = removedStates ex @ [s]) \<and>
           (s \<in> set (addedStates ex) \<longrightarrow> heap ex' s = None \<and> s \<notin> set (addedStates ex') - set (addedStates ex))"
proof -
  let ?dstA = "if isNormalState st then dst\<lparr> allocationRecord := allocationRecord st \<rparr> else dst"
  let ?ex1 = "if isNormalState st then setState ex d (dst\<lparr> allocationRecord := allocationRecord st \<rparr>)
              else ex"
  have h1: "heap ?ex1 d = Some ?dstA" "heap ?ex1 s = Some st" "states ?ex1 = states ex"
    using d s ne by (auto simp: setState_def)
  have nA: "isNormalState ?dstA" using nd by (simp add: isNormalState_def)
  let ?impl = "d \<notin> set (states ex)"
  let ?exn = "if \<not> isRecoveryState ?dstA
              then ?ex1\<lparr> nonRecoveryStates := insert d (nonRecoveryStates ?ex1) \<rparr> else ?ex1"
  let ?dstB = "?dstA\<lparr> suspendStatus := False, recoveryState := None, blockingLoadStatus := False \<rparr>"
  let ?ex2 = "setState ?exn d ?dstB"
  let ?ex3 = "if ?impl then ?ex2\<lparr> addedStates := addedStates ?ex2 @ [d] \<rparr>
              else ?ex2\<lparr> resumedStates := resumedStates ?ex2 @ [d] \<rparr>"
  have h3: "heap ?ex3 s = Some st" "heap ?ex3 d = Some ?dstB"
    using s ne by (auto simp: setState_def)
  have dp3: "depth ?dstB \<le> depth st" using dp by simp
  note rb = replicateBranchHist_ok [OF h3 dp3]
  let ?dstC = "?dstB\<lparr> branchHist := branchHist ?dstB @ drop (length (branchHist ?dstB)) (branchHist st),
                       depth := depth st, prefixes := prefixes st \<rparr>"
  let ?ex4 = "setState ?ex3 d ?dstC"
  have res: "resumeState ?ex1 d ?impl s = Inr ?ex4"
    using h1(1) nA rb by (simp add: resumeState_def Let_def)
  have nt: "notifyDependentState ex s = Inr ?ex4"
    using s rs ds d nd res h1(3) by (auto simp: notifyDependentState_def Let_def)
  have "\<exists>ex4. notifyDependentState ex s = Inr ex4 \<and> heap ex4 s = Some st \<and>
      addedStates ex4 = (if ?impl then addedStates ex @ [d] else addedStates ex) \<and>
      resumedStates ex4 = (if ?impl then resumedStates ex else resumedStates ex @ [d]) \<and>
      removedStates ex4 = removedStates ex \<and> heap ex4 d = Some ?dstC"
    apply (rule exI [of _ ?ex4])
    using nt s ne by (auto simp: setState_def)
  then obtain ex4 where ex4: "notifyDependentState ex s = Inr ex4" "heap ex4 s = Some st"
      "addedStates ex4 = (if ?impl then addedStates ex @ [d] else addedStates ex)"
      "resumedStates ex4 = (if ?impl then resumedStates ex else resumedStates ex @ [d])"
      "removedStates ex4 = removedStates ex" "heap ex4 d = Some ?dstC"
    by blast
  have run: "onRecoveryStateExit ex s = terminateState ex4 s"
    using s rs ds d pend ex4(1) by (simp add: onRecoveryStateExit_def)
  define ex5 where "ex5 = (if s \<notin> set (addedStates ex4)
          then ex4\<lparr> nonRecoveryStates := nonRecoveryStates ex4 - {s},
                   heap := (heap ex4)(s \<mapsto> st\<lparr> pc := prevPC st \<rparr>),
                   removedStates := removedStates ex4 @ [s] \<rparr>
          else ex4\<lparr> nonRecoveryStates := nonRecoveryStates ex4 - {s},
                   addedStates := remove1 s (addedStates ex4),
                   heap := (heap ex4)(s := None) \<rparr>)"
  have fin: "onRecoveryStateExit ex s = Inr ex5"
    using run terminateState_ok [OF ex4(2)] by (simp add: ex5_def)
  have hd5: "heap ex5 d = Some ?dstC" using ex4(6) ne by (simp add: ex5_def)
  have props: "(isNormalState st \<longrightarrow> allocationRecord ?dstC = allocationRecord st)"
    "(\<not> isNormalState st \<longrightarrow> allocationRecord ?dstC = allocationRecord dst)"
    "\<not> isSuspended ?dstC" "\<not> blockingLoadStatus ?dstC" "recoveryState ?dstC = None"
    by (simp_all add: isSuspended_def)
  have l1: "d \<in> set (states ex) \<longrightarrow>
       resumedStates ex5 = resumedStates ex @ [d] \<and> set (addedStates ex5) \<subseteq> set (addedStates ex)"
    using ex4(3,4) set_remove1_subset [of s "addedStates ex"] by (auto simp: ex5_def)
  have l2: "d \<notin> set (states ex) \<longrightarrow> d \<in> set (addedStates ex5) \<and> resumedStates ex5 = resumedStates ex"
    using ex4(3,4) ne by (auto simp: ex5_def)
  have l3: "s \<notin> set (addedStates ex) \<longrightarrow> removedStates ex5 = removedStates ex @ [s]"
    using ex4(3,5) ne by (auto simp: ex5_def)
  have l4: "s \<in> set (addedStates ex) \<longrightarrow>
       heap ex5 s = None \<and> s \<notin> set (addedStates ex5) - set (addedStates ex)"
    using ex4(3) ne by (auto simp: ex5_def)
  show ?thesis
    apply (rule exI [of _ ex5], rule exI [of _ ?dstC])
    using fin hd5 props l1 l2 l3 l4 by blast
qed


text \<open>
  Claim C4. A recovery state reaches its exit instruction; its dependent state is a
  normal state other than itself and not deeper than it (what the assertions on the way
  ask for). If the dependent state has pending recovery infos, the head of the queue is
  taken off and a new recovery state is started for it at the next free pointer. The new
  state is the copy of the state of the snapshot of that info, made a recovery state (a
  pure one for the first snapshot, a normal state as well with the recovery cache and
  the allocation record of the dependent state for a later one), with the program
  counter of the snapshot as its exit instruction, linked to the dependent state and to
  the originating state, carrying the info, the guiding constraints of the originating
  state added to its constraints, restarted at its previous program counter with high
  priority, and with the branch history, depth and prefixes brought up to those of the
  dependent state. It is added to \<^verbatim>\<open>addedStates\<close>; the dependent state keeps its suspend
  status, takes over the history of the finishing recovery state, is linked to the new
  recovery state and is not handed to the searcher. Otherwise the dependent state is
  notified: it takes the allocation record of the recovery state when that is a normal
  state too, it is marked resumed, its blocking-load flag and its link to a recovery
  state are cleared, and it is queued for the searcher, in \<^verbatim>\<open>resumedStates\<close> when
  \<^verbatim>\<open>states\<close> holds it and in \<^verbatim>\<open>addedStates\<close> otherwise. In both cases the recovery
  state is terminated: appended to \<^verbatim>\<open>removedStates\<close>, or deleted at once when it was
  still in \<^verbatim>\<open>addedStates\<close>.
\<close>

theorem recovery_state_exit:
  assumes "heap ex s = Some st" and "isRecoveryState st"
    and "dependentState st = Some d" and "d \<noteq> s"
    and "heap ex d = Some dst" and "isNormalState dst"
    and "depth dst \<le> depth st"
  shows "(pendingRecoveryInfos dst = ri # rest \<and>
          heap ex (snap_state (snapshot ri)) = Some snapSt \<and> snap_state (snapshot ri) \<noteq> d \<and>
          (snapshotIndex ri \<noteq> 0 \<longrightarrow>
             guidingConstraints snapSt = [] \<and> pendingRecoveryInfos snapSt = []) \<and>
          (if isRecoveryState dst then originatingState dst else Some d) = Some orig \<and>
          heap ex orig = Some ost \<and> isNormalState ost \<and>
          (\<forall>c \<in> set (guidingConstraints ost). admissibleConstraint c) \<and>
          heap ex (heapNext ex) = None \<and> depth snapSt \<le> depth st \<longrightarrow>
          (\<exists>ex' dst' rst.
           onRecoveryStateExit ex s = Inr ex' \<and>
           heap ex' d = Some dst' \<and>
           dst' = dst\<lparr> pendingRecoveryInfos := rest,
                         branchHist := branchHist dst @ drop (length (branchHist dst)) (branchHist st),
                         depth := depth st, prefixes := prefixes st,
                         recoveryState := Some (heapNext ex) \<rparr> \<and>
           pendingRecoveryInfos dst' = rest \<and>
           suspendStatus dst' = suspendStatus dst \<and> recoveryState dst' = Some (heapNext ex) \<and>
           heap ex' (heapNext ex) = Some rst \<and>
           rst = (if snapshotIndex ri = 0 then snapSt\<lparr> stateType := RECOVERY_STATE \<rparr>
                    else snapSt\<lparr> stateType := NORMAL_STATE + RECOVERY_STATE,
                                 suspendStatus := False, recoveryState := None,
                                 blockingLoadStatus := True, recoveredLoads := {},
                                 recoveryCache := recoveryCache dst,
                                 allocationRecord := allocationRecord dst \<rparr>)
                   \<lparr> exitInst := pc snapSt, dependentState := Some d,
                     originatingState := Some orig, recoveryInfo := Some ri,
                     guidingAllocationRecord := allocationRecord dst,
                     level := (if isRecoveryState dst then level dst + 1 else 0),
                     constraints := constraints snapSt @
                        filter (\<lambda>c. \<not> isConstantExpr c) (guidingConstraints ost),
                     pc := prevPC snapSt, priority := PRIORITY_HIGH,
                     branchHist := branchHist snapSt @
                        drop (length (branchHist snapSt))
                          (branchHist dst @ drop (length (branchHist dst)) (branchHist st)),
                     depth := depth st, prefixes := prefixes st \<rparr> \<and>
           isRecoveryState rst \<and>
           recoveryInfo rst = Some ri \<and> dependentState rst = Some d \<and>
           heapNext ex \<in> set (addedStates ex') \<and> d \<notin> set (addedStates ex') - set (addedStates ex) \<and>
           resumedStates ex' = resumedStates ex \<and>
           (s \<notin> set (addedStates ex) \<longrightarrow> removedStates ex' = removedStates ex @ [s]) \<and>
           (s \<in> set (addedStates ex) \<longrightarrow> heap ex' s = None \<and> s \<notin> set (addedStates ex') - set (addedStates ex)))) \<and>
         (pendingRecoveryInfos dst = [] \<longrightarrow>
          (\<exists>ex' dst'.
             onRecoveryStateExit ex s = Inr ex' \<and>
             heap ex' d = Some dst' \<and>
             (isNormalState st \<longrightarrow> allocationRecord dst' = allocationRecord st) \<and>
             (\<not> isNormalState st \<longrightarrow> allocationRecord dst' = allocationRecord dst) \<and>
             \<not> isSuspended dst' \<and> \<not> blockingLoadStatus dst' \<and> recoveryState dst' = None \<and>
             (d \<in> set (states ex) \<longrightarrow>
                resumedStates ex' = resumedStates ex @ [d] \<and>
                set (addedStates ex') \<subseteq> set (addedStates ex)) \<and>
             (d \<notin> set (states ex) \<longrightarrow>
                d \<in> set (addedStates ex') \<and> resumedStates ex' = resumedStates ex) \<and>
             (s \<notin> set (addedStates ex) \<longrightarrow> removedStates ex' = removedStates ex @ [s]) \<and>
             (s \<in> set (addedStates ex) \<longrightarrow>
                heap ex' s = None \<and> s \<notin> set (addedStates ex') - set (addedStates ex))))"
proof (rule conjI; rule impI)
  assume a: "pendingRecoveryInfos dst = ri # rest \<and>
          heap ex (snap_state (snapshot ri)) = Some snapSt \<and> snap_state (snapshot ri) \<noteq> d \<and>
          (snapshotIndex ri \<noteq> 0 \<longrightarrow>
             guidingConstraints snapSt = [] \<and> pendingRecoveryInfos snapSt = []) \<and>
          (if isRecoveryState dst then originatingState dst else Some d) = Some orig \<and>
          heap ex orig = Some ost \<and> isNormalState ost \<and>
          (\<forall>c \<in> set (guidingConstraints ost). admissibleConstraint c) \<and>
          heap ex (heapNext ex) = None \<and> depth snapSt \<le> depth st"
  show "\<exists>ex' dst' rst.
           onRecoveryStateExit ex s = Inr ex' \<and>
           heap ex' d = Some dst' \<and>
           dst' = dst\<lparr> pendingRecoveryInfos := rest,
                         branchHist := branchHist dst @ drop (length (branchHist dst)) (branchHist st),
                         depth := depth st, prefixes := prefixes st,
                         recoveryState := Some (heapNext ex) \<rparr> \<and>
           pendingRecoveryInfos dst' = rest \<and>
           suspendStatus dst' = suspendStatus dst \<and> recoveryState dst' = Some (heapNext ex) \<and>
           heap ex' (heapNext ex) = Some rst \<and>
           rst = (if snapshotIndex ri = 0 then snapSt\<lparr> stateType := RECOVERY_STATE \<rparr>
                    else snapSt\<lparr> stateType := NORMAL_STATE + RECOVERY_STATE,
                                 suspendStatus := False, recoveryState := None,
                                 blockingLoadStatus := True, recoveredLoads := {},
                                 recoveryCache := recoveryCache dst,
                                 allocationRecord := allocationRecord dst \<rparr>)
                   \<lparr> exitInst := pc snapSt, dependentState := Some d,
                     originatingState := Some orig, recoveryInfo := Some ri,
                     guidingAllocationRecord := allocationRecord dst,
                     level := (if isRecoveryState dst then level dst + 1 else 0),
                     constraints := constraints snapSt @
                        filter (\<lambda>c. \<not> isConstantExpr c) (guidingConstraints ost),
                     pc := prevPC snapSt, priority := PRIORITY_HIGH,
                     branchHist := branchHist snapSt @
                        drop (length (branchHist snapSt))
                          (branchHist dst @ drop (length (branchHist dst)) (branchHist st)),
                     depth := depth st, prefixes := prefixes st \<rparr> \<and>
           isRecoveryState rst \<and>
           recoveryInfo rst = Some ri \<and> dependentState rst = Some d \<and>
           heapNext ex \<in> set (addedStates ex') \<and> d \<notin> set (addedStates ex') - set (addedStates ex) \<and>
           resumedStates ex' = resumedStates ex \<and>
           (s \<notin> set (addedStates ex) \<longrightarrow> removedStates ex' = removedStates ex @ [s]) \<and>
           (s \<in> set (addedStates ex) \<longrightarrow> heap ex' s = None \<and> s \<notin> set (addedStates ex') - set (addedStates ex))"
    using a by (intro onRecoveryStateExit_chains [OF assms]) blast+
next
  assume "pendingRecoveryInfos dst = []"
  then show "\<exists>ex' dst'.
             onRecoveryStateExit ex s = Inr ex' \<and>
             heap ex' d = Some dst' \<and>
             (isNormalState st \<longrightarrow> allocationRecord dst' = allocationRecord st) \<and>
             (\<not> isNormalState st \<longrightarrow> allocationRecord dst' = allocationRecord dst) \<and>
             \<not> isSuspended dst' \<and> \<not> blockingLoadStatus dst' \<and> recoveryState dst' = None \<and>
             (d \<in> set (states ex) \<longrightarrow>
                resumedStates ex' = resumedStates ex @ [d] \<and>
                set (addedStates ex') \<subseteq> set (addedStates ex)) \<and>
             (d \<notin> set (states ex) \<longrightarrow>
                d \<in> set (addedStates ex') \<and> resumedStates ex' = resumedStates ex) \<and>
             (s \<notin> set (addedStates ex) \<longrightarrow> removedStates ex' = removedStates ex @ [s]) \<and>
             (s \<in> set (addedStates ex) \<longrightarrow>
                heap ex' s = None \<and> s \<notin> set (addedStates ex') - set (addedStates ex))"
    by (rule onRecoveryStateExit_notifies [OF assms])
qed

theorem recovery_state_exit_witness:
  "(\<exists>ex' dst' rst.
      onRecoveryStateExit examplePending 2 = Inr ex' \<and>
      heap ex' 1 = Some dst' \<and> pendingRecoveryInfos dst' = [] \<and> suspendStatus dst' \<and>
      recoveryState dst' = Some 3 \<and> branchHist dst' = ''0'' \<and> depth dst' = 1 \<and>
      heap ex' 3 = Some rst \<and>
      rst = blankState\<lparr> stateType := RECOVERY_STATE, exitInst := 5, dependentState := Some 1,
                         originatingState := Some 1, recoveryInfo := Some exampleRecoveryInfo,
                         constraints := [SymbolicExpr 9, SymbolicExpr 8],
                         pc := 4, prevPC := 4, priority := PRIORITY_HIGH,
                         branchHist := ''0'', depth := 1 \<rparr> \<and>
      isRecoveryState rst \<and>
      recoveryInfo rst = Some exampleRecoveryInfo \<and> dependentState rst = Some 1 \<and>
      3 \<in> set (addedStates ex') \<and> removedStates ex' = [2]) \<and>
   (\<exists>ex' dst'.
      onRecoveryStateExit exampleRecovery 2 = Inr ex' \<and>
      heap ex' 1 = Some dst' \<and> \<not> isSuspended dst' \<and> \<not> blockingLoadStatus dst' \<and>
      resumedStates ex' = [1] \<and> removedStates ex' = [2])"
proof -
  let ?st = "blankState\<lparr> stateType := RECOVERY_STATE, dependentState := Some 1,
                           originatingState := Some 1,
                           recoveryInfo := Some exampleRecoveryInfo \<rparr>"
  let ?stA = "blankState\<lparr> stateType := RECOVERY_STATE, dependentState := Some 1,
                           originatingState := Some 1,
                           recoveryInfo := Some exampleRecoveryInfo,
                           branchHist := ''0'', depth := 1 \<rparr>"
  let ?snap = "blankState\<lparr> pc := 5, prevPC := 4, constraints := [SymbolicExpr 9] \<rparr>"
  let ?dstA = "blankState\<lparr> suspendStatus := True, recoveryState := Some 2,
                           addressSpace := [7 \<mapsto> Map.empty],
                           guidingConstraints := [SymbolicExpr 8],
                           pendingRecoveryInfos := [exampleRecoveryInfo] \<rparr>"
  let ?dstB = "blankState\<lparr> suspendStatus := True, recoveryState := Some 2,
                           addressSpace := [7 \<mapsto> Map.empty] \<rparr>"
  have ri: "snap_state (snapshot exampleRecoveryInfo) = 0" "snapshotIndex exampleRecoveryInfo = 0"
    by (simp_all add: exampleRecoveryInfo_def)
  have bl: "isNormalState blankState" "\<not> isRecoveryState blankState" "guidingConstraints blankState = []"
    "depth blankState = 0"
    by (simp_all add: blankState_def isNormalState_def isRecoveryState_def NORMAL_STATE_def)
  have cA: "heap examplePending 2 = Some ?stA" "isRecoveryState ?stA" "dependentState ?stA = Some 1"
    "(1::nat) \<noteq> 2" "heap examplePending 1 = Some ?dstA" "isNormalState ?dstA"
    "depth ?dstA \<le> depth ?stA"
    using bl by (simp_all add: examplePending_def exampleRecovery_def blankExecutor_def
        isRecoveryState_def isNormalState_def RECOVERY_STATE_def)
  have hA: "pendingRecoveryInfos ?dstA = exampleRecoveryInfo # [] \<and>
          heap examplePending (snap_state (snapshot exampleRecoveryInfo)) = Some ?snap \<and>
          snap_state (snapshot exampleRecoveryInfo) \<noteq> 1 \<and>
          (snapshotIndex exampleRecoveryInfo \<noteq> 0 \<longrightarrow>
             guidingConstraints ?snap = [] \<and> pendingRecoveryInfos ?snap = []) \<and>
          (if isRecoveryState ?dstA then originatingState ?dstA else Some 1) = Some 1 \<and>
          heap examplePending 1 = Some ?dstA \<and> isNormalState ?dstA \<and>
          (\<forall>c \<in> set (guidingConstraints ?dstA). admissibleConstraint c) \<and>
          heap examplePending (heapNext examplePending) = None \<and> depth ?snap \<le> depth ?stA"
    using bl unfolding ri
    by (simp add: examplePending_def exampleRecovery_def blankExecutor_def
        isRecoveryState_def isNormalState_def admissibleConstraint_def)
  have lA: "heapNext examplePending = 3" "addedStates examplePending = []"
    "removedStates examplePending = []"
    by (simp_all add: examplePending_def exampleRecovery_def blankExecutor_def)
  have bh: "branchHist blankState = []"  "constraints blankState = []"
    "allocationRecord blankState = []" "level blankState = 0" "priority blankState = 0"
    "exitInst blankState = 0"
    by (simp_all add: blankState_def)
  from recovery_state_exit [OF cA, THEN conjunct1, rule_format, OF hA]
  have A: "\<exists>ex' dst' rst.
      onRecoveryStateExit examplePending 2 = Inr ex' \<and>
      heap ex' 1 = Some dst' \<and> pendingRecoveryInfos dst' = [] \<and> suspendStatus dst' \<and>
      recoveryState dst' = Some 3 \<and> branchHist dst' = ''0'' \<and> depth dst' = 1 \<and>
      heap ex' 3 = Some rst \<and>
      rst = blankState\<lparr> stateType := RECOVERY_STATE, exitInst := 5, dependentState := Some 1,
                         originatingState := Some 1, recoveryInfo := Some exampleRecoveryInfo,
                         constraints := [SymbolicExpr 9, SymbolicExpr 8],
                         pc := 4, prevPC := 4, priority := PRIORITY_HIGH,
                         branchHist := ''0'', depth := 1 \<rparr> \<and>
      isRecoveryState rst \<and>
      recoveryInfo rst = Some exampleRecoveryInfo \<and> dependentState rst = Some 1 \<and>
      3 \<in> set (addedStates ex') \<and> removedStates ex' = [2]"
    unfolding lA ri using bl bh
    by (auto simp add: blankState_def isRecoveryState_def)
  have cB: "heap exampleRecovery 2 = Some ?st" "isRecoveryState ?st" "dependentState ?st = Some 1"
    "(1::nat) \<noteq> 2" "heap exampleRecovery 1 = Some ?dstB" "isNormalState ?dstB"
    "depth ?dstB \<le> depth ?st"
    using bl by (simp_all add: exampleRecovery_def blankExecutor_def
        isRecoveryState_def isNormalState_def RECOVERY_STATE_def)
  have hB: "pendingRecoveryInfos ?dstB = []" by (simp add: blankState_def)
  have lB: "states exampleRecovery = [1, 2]" "addedStates exampleRecovery = []"
    "removedStates exampleRecovery = []" "resumedStates exampleRecovery = []"
    by (simp_all add: exampleRecovery_def blankExecutor_def)
  from recovery_state_exit [OF cB, THEN conjunct2, rule_format, OF hB]
  have B: "\<exists>ex' dst'.
      onRecoveryStateExit exampleRecovery 2 = Inr ex' \<and>
      heap ex' 1 = Some dst' \<and> \<not> isSuspended dst' \<and> \<not> blockingLoadStatus dst' \<and>
      resumedStates ex' = [1] \<and> removedStates ex' = [2]"
    unfolding lB by simp blast
  from A B show ?thesis by blast
qed

section \<open>Forking a recovery state forks its dependent chain\<close>

lemma grows_refl: "grows st st"
  unfolding grows_def
  by (rule exI [of _ "[]"], rule exI [of _ "guidingConstraints st"]) simp

lemma grows_trans: "grows a b \<Longrightarrow> grows b c \<Longrightarrow> grows a c"
proof -
  assume "grows a b" "grows b c"
  then obtain cs gs cs' gs' where
    b: "b = a\<lparr> constraints := constraints a @ cs, guidingConstraints := gs \<rparr>"
    and c: "c = b\<lparr> constraints := constraints b @ cs', guidingConstraints := gs' \<rparr>"
    unfolding grows_def by blast
  show ?thesis
    unfolding grows_def
    by (rule exI [of _ "cs @ cs'"], rule exI [of _ gs']) (simp add: b c)
qed

lemma grows_skeleton: "grows st st' \<Longrightarrow> skeleton st' = skeleton st"
  unfolding grows_def skeleton_def by auto

lemma grows_fields:
  "grows st st' \<Longrightarrow>
     stateType st' = stateType st \<and> depth st' = depth st \<and> branchHist st' = branchHist st \<and>
     prefixes st' = prefixes st \<and> dependentState st' = dependentState st \<and>
     suspendStatus st' = suspendStatus st \<and> snapshots st' = snapshots st \<and>
     originatingState st' = originatingState st \<and>
     (\<exists>cs. constraints st' = constraints st @ cs)"
  unfolding grows_def by auto

lemma heapGrows_refl: "heapGrows h h"
  unfolding heapGrows_def by (auto split: option.splits intro: grows_refl)

lemma heapGrows_trans: "heapGrows h1 h2 \<Longrightarrow> heapGrows h2 h3 \<Longrightarrow> heapGrows h1 h3"
  unfolding heapGrows_def
  apply (intro allI)
  subgoal for x
    apply (erule allE [of _ x])+
    apply (auto split: option.splits intro: grows_trans)
    done
  done

lemma heapGrows_upd:
  "h x = Some st \<Longrightarrow> grows st st' \<Longrightarrow> heapGrows h (h(x \<mapsto> st'))"
  unfolding heapGrows_def by (auto split: option.splits intro: grows_refl)

lemma heapGrows_Some:
  "heapGrows h h' \<Longrightarrow> h x = Some st \<Longrightarrow> \<exists>st'. h' x = Some st' \<and> grows st st'"
  unfolding heapGrows_def by (erule allE [of _ x]) simp

lemma heapGrows_None: "heapGrows h h' \<Longrightarrow> h x = None \<Longrightarrow> h' x = None"
  unfolding heapGrows_def by (erule allE [of _ x]) simp

lemma dependentChain_cong:
  "\<forall>x \<in> set xs. map_option skeleton (h' x) = map_option skeleton (h x) \<Longrightarrow>
   dependentChain h' xs = dependentChain h xs"
proof (induction xs)
  case Nil then show ?case by simp
next
  case (Cons d ds)
  then have ih: "dependentChain h' ds = dependentChain h ds" by simp
  from Cons.prems have "map_option skeleton (h' d) = map_option skeleton (h d)" by simp
  then show ?case using ih
    by (cases "h d"; cases "h' d")
      (auto simp: skeleton_def isNormalState_def isSuspended_def isRecoveryState_def)
qed

lemma dependentChain_grows:
  "heapGrows h h' \<Longrightarrow> dependentChain h' xs = dependentChain h xs"
  apply (rule dependentChain_cong)
  apply (intro ballI)
  subgoal for x
    by (cases "h x") (auto dest: heapGrows_None heapGrows_Some grows_skeleton)
  done

lemma dependentChain_dom: "dependentChain h xs \<Longrightarrow> \<forall>x \<in> set xs. h x \<noteq> None"
  by (induction xs) (auto split: option.splits if_splits)

lemma dependentChain_normal:
  "dependentChain h xs \<Longrightarrow> x \<in> set xs \<Longrightarrow> \<exists>st. h x = Some st \<and> isNormalState st \<and> isSuspended st"
  by (induction xs) (auto split: option.splits if_splits)

lemma ExecutionState_addConstraint_ok:
  "\<exists>st'. ExecutionState_addConstraint st c = Inr st' \<and> grows st st' \<and>
         constraints st' = constraints st @ [c] \<and>
         (\<exists>gs. st' = st\<lparr> constraints := constraints st @ [c], guidingConstraints := gs \<rparr>)"
proof -
  let ?st1 = "st\<lparr> constraints := constraints st @ [c] \<rparr>"
  show ?thesis
  proof (cases "isNormalState st \<and> \<not> isRecoveryState st \<and> snapshots st \<noteq> []")
    case True
    then have "ExecutionState_addConstraint st c
                 = Inr (?st1\<lparr> guidingConstraints := List.insert c (guidingConstraints st) \<rparr>)"
      by (simp add: ExecutionState_addConstraint_def addGuidingConstraint_def Let_def
          isNormalState_def isRecoveryState_def)
    then show ?thesis unfolding grows_def by (auto intro: exI [of _ "[c]"])
  next
    case False
    then have "ExecutionState_addConstraint st c = Inr ?st1"
      by (auto simp: ExecutionState_addConstraint_def addGuidingConstraint_def Let_def
          isNormalState_def isRecoveryState_def)
    moreover have "grows st ?st1"
      unfolding grows_def
      by (rule exI [of _ "[c]"], rule exI [of _ "guidingConstraints st"]) simp
    moreover have "\<exists>gs. ?st1 = st\<lparr> constraints := constraints st @ [c], guidingConstraints := gs \<rparr>"
      by (rule exI [of _ "guidingConstraints st"]) simp
    ultimately show ?thesis by simp
  qed
qed

lemma addConstraint_ok:
  assumes "heap ex s = Some st" "\<not> isConstantExpr c"
  shows "\<exists>st'. addConstraint ex s c = Inr (setState ex s st') \<and> grows st st' \<and>
               constraints st' = constraints st @ [c] \<and>
               (\<exists>gs. st' = st\<lparr> constraints := constraints st @ [c], guidingConstraints := gs \<rparr>)"
proof -
  obtain st' where a: "ExecutionState_addConstraint st c = Inr st'" "grows st st'"
    "constraints st' = constraints st @ [c]"
    "\<exists>gs. st' = st\<lparr> constraints := constraints st @ [c], guidingConstraints := gs \<rparr>"
    using ExecutionState_addConstraint_ok by blast
  have "addConstraint ex s c = Inr (setState ex s st')"
    using assms a(1) by (cases c) (simp_all add: addConstraint_def)
  then show ?thesis using a by blast
qed

lemma createIsZero_nonconstant: "\<not> isConstantExpr c \<Longrightarrow> \<not> isConstantExpr (createIsZero c)"
  by (cases c) simp_all

lemma mergeConstraintsForAll_loop_ok:
  assumes "dependentChain (heap ex) ds" "\<not> isConstantExpr c"
  shows "\<exists>h'. mergeConstraintsForAll_loop ex (hd ds) c = Some (Inr (ex\<lparr> heap := h' \<rparr>)) \<and>
              heapGrows (heap ex) h'"
  using assms(1)
proof (induction ds arbitrary: ex)
  case Nil then show ?case by simp
next
  case (Cons d rest)
  from Cons.prems obtain dst where d: "heap ex d = Some dst" "isNormalState dst"
    and r: "isRecoveryState dst \<Longrightarrow>
              rest \<noteq> [] \<and> dependentState dst = Some (hd rest) \<and> dependentChain (heap ex) rest"
    by (auto split: option.splits if_splits)
  obtain st' where a: "addConstraint ex d c = Inr (setState ex d st')" "grows dst st'"
    using addConstraint_ok [OF d(1) assms(2)] by blast
  let ?ex1 = "setState ex d st'"
  have m: "mergeConstraints ex d c = Inr ?ex1"
    using d a(1) by (simp add: mergeConstraints_def)
  have h1: "heap ?ex1 d = Some st'" by (simp add: setState_def)
  have g1: "heapGrows (heap ex) (heap ?ex1)"
    using heapGrows_upd [of "heap ex" d dst st'] d(1) a(2) by (simp add: setState_def)
  have f: "isRecoveryState st' = isRecoveryState dst" "dependentState st' = dependentState dst"
    using grows_fields [OF a(2)] by (simp_all add: isRecoveryState_def)
  show ?case
  proof (cases "isRecoveryState dst")
    case False
    have "mergeConstraintsForAll_loop ex d c = Some (Inr ?ex1)"
      by (subst mergeConstraintsForAll_loop.simps) (simp add: m h1 f False)
    moreover have "?ex1 = ex\<lparr> heap := heap ?ex1 \<rparr>" by (simp add: setState_def)
    ultimately show ?thesis using g1 by (metis list.sel(1))
  next
    case True
    from r [OF True] have rest: "rest \<noteq> []" "dependentState dst = Some (hd rest)"
      "dependentChain (heap ex) rest" by simp_all
    have "dependentChain (heap ?ex1) rest"
      using rest(3) dependentChain_grows [OF g1] by simp
    from Cons.IH [OF this] obtain h' where
      ih: "mergeConstraintsForAll_loop ?ex1 (hd rest) c = Some (Inr (?ex1\<lparr> heap := h' \<rparr>))"
      "heapGrows (heap ?ex1) h'" by blast
    have "mergeConstraintsForAll_loop ex d c = Some (Inr (?ex1\<lparr> heap := h' \<rparr>))"
      by (subst mergeConstraintsForAll_loop.simps) (simp add: m h1 f True rest(2) ih(1))
    moreover have "?ex1\<lparr> heap := h' \<rparr> = ex\<lparr> heap := h' \<rparr>" by (simp add: setState_def)
    ultimately show ?thesis using heapGrows_trans [OF g1 ih(2)] by (metis list.sel(1))
  qed
qed

lemma setsOriginating_refl: "setsOriginating fo h h"
  unfolding setsOriginating_def by simp

lemma setsOriginating_trans:
  assumes "setsOriginating fo h1 h2" "setsOriginating fo h2 h3"
  shows "setsOriginating fo h1 h3"
  unfolding setsOriginating_def
proof
  fix x
  have a: "h2 x = h1 x \<or> (\<exists>st. h1 x = Some st \<and> h2 x = Some (st\<lparr> originatingState := Some fo \<rparr>))"
    using assms(1) unfolding setsOriginating_def by blast
  have b: "h3 x = h2 x \<or> (\<exists>st. h2 x = Some st \<and> h3 x = Some (st\<lparr> originatingState := Some fo \<rparr>))"
    using assms(2) unfolding setsOriginating_def by blast
  show "h3 x = h1 x \<or> (\<exists>st. h1 x = Some st \<and> h3 x = Some (st\<lparr> originatingState := Some fo \<rparr>))"
  proof (cases "h3 x = h2 x")
    case True
    then show ?thesis using a by simp
  next
    case False
    then obtain st2 where s2: "h2 x = Some st2" "h3 x = Some (st2\<lparr> originatingState := Some fo \<rparr>)"
      using b by blast
    show ?thesis
    proof (cases "h2 x = h1 x")
      case True
      then have "h1 x = Some st2" using s2 by simp
      then show ?thesis using s2(2) by blast
    next
      case False
      then obtain st1 where s1: "h1 x = Some st1" "h2 x = Some (st1\<lparr> originatingState := Some fo \<rparr>)"
        using a by blast
      then show ?thesis using s2 by auto
    qed
  qed
qed

lemma setsOriginating_skeleton:
  "setsOriginating fo h h' \<Longrightarrow> map_option skeleton (h' x) = map_option skeleton (h x)"
  unfolding setsOriginating_def
  by (erule allE [of _ x]) (auto simp: skeleton_def)

lemma dependentChain_setsOriginating:
  "setsOriginating fo h h' \<Longrightarrow> dependentChain h' xs = dependentChain h xs"
  by (rule dependentChain_cong) (simp add: setsOriginating_skeleton)

lemma setsOriginating_normal:
  "setsOriginating fo h h' \<Longrightarrow> h x = Some st \<Longrightarrow> isNormalState st \<Longrightarrow>
   \<exists>st'. h' x = Some st' \<and> isNormalState st'"
  unfolding setsOriginating_def
  by (erule allE [of _ x]) (auto simp: isNormalState_def)

lemma forkDependentStates_originating_ok:
  assumes "dependentChain (heap ex) ds" "heap ex fo = Some fost" "isNormalState fost"
  shows "\<exists>h'. forkDependentStates_originating ex (hd ds) (Some fo) = Some (Inr (ex\<lparr> heap := h' \<rparr>)) \<and>
              setsOriginating fo (heap ex) h' \<and> (\<forall>x. x \<notin> set ds \<longrightarrow> h' x = heap ex x)"
  using assms
proof (induction ds arbitrary: ex fost)
  case Nil then show ?case by simp
next
  case (Cons d rest)
  from Cons.prems(1) obtain cst where d: "heap ex d = Some cst"
    and r: "isRecoveryState cst \<Longrightarrow>
              rest \<noteq> [] \<and> dependentState cst = Some (hd rest) \<and> dependentChain (heap ex) rest"
    by (auto split: option.splits if_splits)
  show ?case
  proof (cases "isRecoveryState cst")
    case False
    have "forkDependentStates_originating ex d (Some fo) = Some (Inr ex)"
      by (subst forkDependentStates_originating.simps) (simp add: d False)
    moreover have "ex = ex\<lparr> heap := heap ex \<rparr>" by simp
    ultimately have "forkDependentStates_originating ex d (Some fo) = Some (Inr (ex\<lparr> heap := heap ex \<rparr>))"
      by simp
    then show ?thesis using setsOriginating_refl [of fo "heap ex"]
      by (intro exI [of _ "heap ex"]) simp
  next
    case True
    from r [OF True] have rest: "rest \<noteq> []" "dependentState cst = Some (hd rest)"
      "dependentChain (heap ex) rest" by simp_all
    let ?ex1 = "setState ex d (cst\<lparr> originatingState := Some fo \<rparr>)"
    have s1: "setsOriginating fo (heap ex) (heap ?ex1)"
      unfolding setsOriginating_def using d by (simp add: setState_def)
    have c1: "dependentChain (heap ?ex1) rest"
      using rest(3) dependentChain_setsOriginating [OF s1] by simp
    obtain fost1 where f1: "heap ?ex1 fo = Some fost1" "isNormalState fost1"
      using setsOriginating_normal [OF s1 Cons.prems(2,3)] by blast
    from Cons.IH [OF c1 f1] obtain h' where
      ih: "forkDependentStates_originating ?ex1 (hd rest) (Some fo) = Some (Inr (?ex1\<lparr> heap := h' \<rparr>))"
      "setsOriginating fo (heap ?ex1) h'" "\<forall>x. x \<notin> set rest \<longrightarrow> h' x = heap ?ex1 x" by blast
    have "forkDependentStates_originating ex d (Some fo) = Some (Inr (?ex1\<lparr> heap := h' \<rparr>))"
      by (subst forkDependentStates_originating.simps)
         (simp add: d True Cons.prems(2,3) rest(2) ih(1) Let_def)
    moreover have "?ex1\<lparr> heap := h' \<rparr> = ex\<lparr> heap := h' \<rparr>" by (simp add: setState_def)
    moreover have "\<forall>x. x \<notin> set (d # rest) \<longrightarrow> h' x = heap ex x"
      using ih(3) by (simp add: setState_def)
    ultimately show ?thesis using setsOriginating_trans [OF s1 ih(2)]
      by (intro exI [of _ h']) simp
  qed
qed

lemma forkDependentStates_copy_ok:
  assumes "dependentChain (heap ex) ds" "prev \<notin> set ds" "heap ex prev = Some pst"
    "isRecoveryState pst" "\<forall>n \<ge> heapNext ex. heap ex n = None"
  shows "\<exists>fo h' N' fs.
           forkDependentStates_copy ex (hd ds) prev
             = Some (Inr (Some fo, ex\<lparr> heap := h', heapNext := N' \<rparr>)) \<and>
           heapNext ex < N' \<and> (\<forall>n \<ge> N'. h' n = None) \<and>
           (\<forall>x. x < heapNext ex \<and> x \<noteq> prev \<longrightarrow> h' x = heap ex x) \<and>
           h' prev = Some (pst\<lparr> dependentState := Some (heapNext ex) \<rparr>) \<and>
           dependentChain h' fs \<and> hd fs = heapNext ex \<and> (\<forall>x \<in> set fs. heapNext ex \<le> x) \<and>
           fo \<in> set fs \<and> (\<exists>fost. h' fo = Some fost \<and> isNormalState fost)"
  using assms
proof (induction ds arbitrary: ex prev pst)
  case Nil then show ?case by simp
next
  case (Cons d rest)
  define N where "N = heapNext ex"
  from Cons.prems(1) obtain cst where d: "heap ex d = Some cst" "isNormalState cst" "isSuspended cst"
    and r: "isRecoveryState cst \<Longrightarrow>
              rest \<noteq> [] \<and> dependentState cst = Some (hd rest) \<and> dependentChain (heap ex) rest"
    and nr: "\<not> isRecoveryState cst \<Longrightarrow> rest = []"
    by (auto split: option.splits if_splits)
  have lt: "\<And>x. heap ex x \<noteq> None \<Longrightarrow> x < N"
    using Cons.prems(5) unfolding N_def by (metis not_le_imp_less)
  have pN: "prev < N" using lt Cons.prems(3) by simp
  have dN: "d < N" using lt d(1) by simp
  define cst' where "cst' = cst\<lparr> recoveryState := Some prev \<rparr>"
  define pst' where "pst' = pst\<lparr> dependentState := Some N \<rparr>"
  define h1 where "h1 = (heap ex)(N \<mapsto> cst', prev \<mapsto> pst')"
  define ex1 where "ex1 = ex\<lparr> heap := h1, heapNext := Suc N \<rparr>"
  have hN: "h1 N = Some cst'" using pN by (simp add: h1_def)
  have hp: "h1 prev = Some pst'" by (simp add: h1_def)
  have old: "\<And>x. x < N \<Longrightarrow> x \<noteq> prev \<Longrightarrow> h1 x = heap ex x" by (simp add: h1_def)
  have fresh1: "\<forall>n \<ge> Suc N. h1 n = None" using Cons.prems(5) pN by (simp add: h1_def N_def)
  have sk: "isNormalState cst'" "isSuspended cst'" "isRecoveryState cst' = isRecoveryState cst"
    using d by (simp_all add: cst'_def isNormalState_def isSuspended_def isRecoveryState_def)
  have exeq: "\<And>h' N'. ex1\<lparr> heap := h', heapNext := N' \<rparr> = ex\<lparr> heap := h', heapNext := N' \<rparr>"
    by (simp add: ex1_def)
  show ?case
  proof (cases "isRecoveryState cst")
    case False
    have "forkDependentStates_copy ex d prev = Some (Inr (Some N, ex1))"
      by (subst forkDependentStates_copy.simps)
         (simp add: d False Cons.prems(3,4) Let_def ex1_def h1_def cst'_def pst'_def N_def)
    then have run: "forkDependentStates_copy ex (hd (d # rest)) prev
                      = Some (Inr (Some N, ex\<lparr> heap := h1, heapNext := Suc N \<rparr>))"
      by (simp add: ex1_def)
    have ch: "dependentChain h1 [N]" using hN sk False by simp
    have nf: "\<exists>fost. h1 N = Some fost \<and> isNormalState fost" using hN sk by simp
    show ?thesis
      unfolding N_def [symmetric]
      apply (rule exI [of _ N], rule exI [of _ h1], rule exI [of _ "Suc N"],
             rule exI [of _ "[N]"])
      apply (intro conjI)
      using run apply simp
      apply simp
      using fresh1 apply simp
      using old apply simp
      using hp apply (simp add: pst'_def)
      using ch apply simp
         apply simp
        apply simp
       apply simp
      using nf apply simp
      done
  next
    case True
    from r [OF True] have rest: "rest \<noteq> []" "dependentState cst = Some (hd rest)"
      "dependentChain (heap ex) rest" by simp_all
    have restN: "\<forall>x \<in> set rest. x < N"
      using dependentChain_dom [OF rest(3)] lt by blast
    have "\<forall>x \<in> set rest. map_option skeleton (h1 x) = map_option skeleton (heap ex x)"
      using restN Cons.prems(2) old by (metis list.set_intros(2))
    then have "dependentChain h1 rest"
      using rest(3) dependentChain_cong [of rest h1 "heap ex"] by simp
    then have c1: "dependentChain (heap ex1) rest" by (simp add: ex1_def)
    have n1: "N \<notin> set rest" using restN by auto
    have p1: "heap ex1 N = Some cst'" using hN by (simp add: ex1_def)
    have r1: "isRecoveryState cst'" using True sk by simp
    have f1: "\<forall>n \<ge> heapNext ex1. heap ex1 n = None" using fresh1 by (simp add: ex1_def)
    have N1: "heapNext ex1 = Suc N" "heap ex1 = h1" by (simp_all add: ex1_def)
    from Cons.IH [OF c1 n1 p1 r1 f1] obtain fo h' N' fs where
      ih: "forkDependentStates_copy ex1 (hd rest) N
             = Some (Inr (Some fo, ex1\<lparr> heap := h', heapNext := N' \<rparr>))"
      "Suc N < N'" "\<forall>n \<ge> N'. h' n = None"
      "\<forall>x. x < Suc N \<and> x \<noteq> N \<longrightarrow> h' x = h1 x"
      "h' N = Some (cst'\<lparr> dependentState := Some (Suc N) \<rparr>)"
      "dependentChain h' fs" "hd fs = Suc N" "\<forall>x \<in> set fs. Suc N \<le> x"
      "fo \<in> set fs" "\<exists>fost. h' fo = Some fost \<and> isNormalState fost"
      unfolding N1 by blast
    have "forkDependentStates_copy ex d prev = forkDependentStates_copy ex1 (hd rest) N"
      by (subst forkDependentStates_copy.simps)
         (simp add: d True Cons.prems(3,4) rest(2) Let_def ex1_def h1_def cst'_def pst'_def N_def)
    then have run: "forkDependentStates_copy ex (hd (d # rest)) prev
                 = Some (Inr (Some fo, ex\<lparr> heap := h', heapNext := N' \<rparr>))"
      using ih(1) exeq by simp
    have fsne: "fs \<noteq> []" using ih(6) by (cases fs) simp_all
    have "isNormalState (cst'\<lparr> dependentState := Some (Suc N) \<rparr>)"
      "isSuspended (cst'\<lparr> dependentState := Some (Suc N) \<rparr>)"
      "isRecoveryState (cst'\<lparr> dependentState := Some (Suc N) \<rparr>)"
      using sk True by (simp_all add: isNormalState_def isSuspended_def isRecoveryState_def)
    then have ch: "dependentChain h' (N # fs)"
      using ih(5,6,7) fsne by simp
    have hp': "h' prev = Some pst'" using ih(4) pN hp by (metis less_Suc_eq less_not_refl)
    have old': "\<forall>x. x < N \<and> x \<noteq> prev \<longrightarrow> h' x = heap ex x"
      using ih(4) old by (metis less_Suc_eq less_not_refl)
    have ge: "\<forall>x \<in> set (N # fs). N \<le> x" using ih(8) by auto
    show ?thesis
      unfolding N_def [symmetric]
      apply (rule exI [of _ fo], rule exI [of _ h'], rule exI [of _ N'],
             rule exI [of _ "N # fs"])
      apply (intro conjI)
      using run apply simp
      using ih(2) apply simp
      using ih(3) apply simp
      using old' apply simp
      using hp' apply (simp add: pst'_def)
      using ch apply simp
         apply simp
      using ge apply simp
      using ih(9) apply simp
      using ih(10) apply simp
      done
  qed
qed

lemma forkDependentStates_ok:
  assumes t: "heap ex t = Some tst" "isRecoveryState tst" "dependentState tst = Some (hd ds)"
    and ch: "dependentChain (heap ex) ds"
    and sib: "heap ex sib = Some sst" "isRecoveryState sst" "sib \<notin> set ds"
    and fresh: "\<forall>n \<ge> heapNext ex. heap ex n = None"
  shows "\<exists>h' N' fs fo.
           forkDependentStates ex t sib = Inr (ex\<lparr> heap := h', heapNext := N' \<rparr>) \<and>
           (\<forall>n \<ge> N'. h' n = None) \<and>
           (\<forall>x. x < heapNext ex \<and> x \<noteq> sib \<longrightarrow> h' x = heap ex x) \<and>
           h' sib = Some (sst\<lparr> dependentState := Some (hd fs), originatingState := Some fo \<rparr>) \<and>
           dependentChain h' fs \<and> (\<exists>fost. h' fo = Some fost \<and> isNormalState fost)"
proof -
  define N where "N = heapNext ex"
  from forkDependentStates_copy_ok [OF ch sib(3) sib(1,2) fresh]
  obtain fo h1 N' fs where
    cp: "forkDependentStates_copy ex (hd ds) sib
           = Some (Inr (Some fo, ex\<lparr> heap := h1, heapNext := N' \<rparr>))"
    "N < N'" "\<forall>n \<ge> N'. h1 n = None"
    "\<forall>x. x < N \<and> x \<noteq> sib \<longrightarrow> h1 x = heap ex x"
    "h1 sib = Some (sst\<lparr> dependentState := Some N \<rparr>)"
    "dependentChain h1 fs" "hd fs = N" "\<forall>x \<in> set fs. N \<le> x"
    "fo \<in> set fs" "\<exists>fost. h1 fo = Some fost \<and> isNormalState fost"
    unfolding N_def by blast
  obtain fost where fo: "h1 fo = Some fost" "isNormalState fost" using cp(10) by blast
  have sN: "sib < N" using fresh sib(1) unfolding N_def by (metis not_le_imp_less option.distinct(1))
  have sfs: "sib \<notin> set fs" using cp(8) sN by auto
  define ex1 where "ex1 = ex\<lparr> heap := h1, heapNext := N' \<rparr>"
  define sst2 where "sst2 = sst\<lparr> dependentState := Some N, originatingState := Some fo \<rparr>"
  define ex2 where "ex2 = setState ex1 sib sst2"
  have h2: "heap ex2 = h1(sib \<mapsto> sst2)" by (simp add: ex2_def ex1_def setState_def)
  have "\<forall>x \<in> set fs. map_option skeleton (heap ex2 x) = map_option skeleton (h1 x)"
    using sfs h2 by auto
  then have c2: "dependentChain (heap ex2) fs"
    using cp(6) dependentChain_cong [of fs "heap ex2" h1] by simp
  have "fo \<noteq> sib" using cp(9) sfs by auto
  then have fo2: "heap ex2 fo = Some fost" using fo h2 by simp
  from forkDependentStates_originating_ok [OF c2 fo2 fo(2)] obtain h' where
    og: "forkDependentStates_originating ex2 (hd fs) (Some fo) = Some (Inr (ex2\<lparr> heap := h' \<rparr>))"
    "setsOriginating fo (heap ex2) h'" "\<forall>x. x \<notin> set fs \<longrightarrow> h' x = heap ex2 x" by blast
  have rs: "isRecoveryState (sst\<lparr> dependentState := Some N \<rparr>)"
    using sib(2) by (simp add: isRecoveryState_def)
  have "forkDependentStates_originating ex1 sib (Some fo)
          = forkDependentStates_originating ex2 N (Some fo)"
    by (subst forkDependentStates_originating.simps)
       (simp add: ex1_def cp(5) rs fo Let_def ex2_def sst2_def setState_def)
  then have og1: "forkDependentStates_originating ex1 sib (Some fo) = Some (Inr (ex2\<lparr> heap := h' \<rparr>))"
    using og(1) cp(7) by simp
  have exeq: "ex2\<lparr> heap := h' \<rparr> = ex\<lparr> heap := h', heapNext := N' \<rparr>"
    by (simp add: ex2_def ex1_def setState_def)
  have run: "forkDependentStates ex t sib = Inr (ex\<lparr> heap := h', heapNext := N' \<rparr>)"
    using t cp(1) og1 exeq by (simp add: forkDependentStates_def ex1_def)
  have fr: "\<forall>n \<ge> N'. h' n = None"
  proof (intro allI impI)
    fix n assume n: "N' \<le> n"
    then have "h1 n = None" using cp(3) by simp
    moreover have "n \<noteq> sib" using n sN cp(2) by simp
    ultimately have "heap ex2 n = None" using h2 by simp
    then show "h' n = None" using og(2) unfolding setsOriginating_def by (metis option.distinct(1))
  qed
  have old: "\<forall>x. x < N \<and> x \<noteq> sib \<longrightarrow> h' x = heap ex x"
  proof (intro allI impI)
    fix x assume x: "x < N \<and> x \<noteq> sib"
    then have "x \<notin> set fs" using cp(8) by auto
    then have "h' x = heap ex2 x" using og(3) by simp
    then show "h' x = heap ex x" using x h2 cp(4) by simp
  qed
  have hs: "h' sib = Some sst2" using og(3) sfs h2 by simp
  have c': "dependentChain h' fs" using c2 dependentChain_setsOriginating [OF og(2)] by simp
  have fo': "\<exists>fost. h' fo = Some fost \<and> isNormalState fost"
    using setsOriginating_normal [OF og(2) fo2 fo(2)] .
  show ?thesis
    unfolding N_def [symmetric]
    apply (rule exI [of _ h'], rule exI [of _ N'], rule exI [of _ fs], rule exI [of _ fo])
    using run fr old hs c' fo' cp(7) by (simp add: sst2_def)
qed

lemma heapGrows_normal:
  "heapGrows h h' \<Longrightarrow> h x = Some st \<Longrightarrow> isNormalState st \<Longrightarrow>
   \<exists>st'. h' x = Some st' \<and> isNormalState st'"
  by (drule (1) heapGrows_Some) (auto dest: grows_fields simp: isNormalState_def)

lemma mergeConstraintsForAll_ok:
  assumes r: "heap ex r = Some rst" "isRecoveryState rst" "dependentState rst = Some (hd ds)"
    "originatingState rst = Some orig"
    and ch: "dependentChain (heap ex) ds"
    and o: "heap ex orig = Some ost" "isNormalState ost"
    and c: "\<not> isConstantExpr c"
  shows "\<exists>h'. mergeConstraintsForAll ex r c = Inr (ex\<lparr> heap := h' \<rparr>) \<and> heapGrows (heap ex) h'"
proof -
  from mergeConstraintsForAll_loop_ok [OF ch c] obtain h1 where
    lp: "mergeConstraintsForAll_loop ex (hd ds) c = Some (Inr (ex\<lparr> heap := h1 \<rparr>))"
    "heapGrows (heap ex) h1" by blast
  obtain rst1 where r1: "h1 r = Some rst1" "grows rst rst1"
    using heapGrows_Some [OF lp(2) r(1)] by blast
  have or1: "originatingState rst1 = Some orig" using grows_fields [OF r1(2)] r(4) by simp
  obtain ost1 where o1: "h1 orig = Some ost1" "grows ost ost1"
    using heapGrows_Some [OF lp(2) o(1)] by blast
  have n1: "isNormalState ost1" using grows_fields [OF o1(2)] o(2) by (simp add: isNormalState_def)
  define ost2 where "ost2 = ost1\<lparr> guidingConstraints := List.insert c (guidingConstraints ost1) \<rparr>"
  have g2: "grows ost1 ost2"
    unfolding grows_def ost2_def
    by (rule exI [of _ "[]"], rule exI [of _ "List.insert c (guidingConstraints ost1)"]) simp
  have run: "mergeConstraintsForAll ex r c = Inr (ex\<lparr> heap := h1(orig \<mapsto> ost2) \<rparr>)"
    using r lp(1) r1(1) or1 o1(1) n1
    by (simp add: mergeConstraintsForAll_def addGuidingConstraint_def setState_def ost2_def)
  have "heapGrows h1 (h1(orig \<mapsto> ost2))" using heapGrows_upd [of h1 orig ost1 ost2] o1(1) g2 by simp
  then have "heapGrows (heap ex) (h1(orig \<mapsto> ost2))" using heapGrows_trans [OF lp(2)] by simp
  then show ?thesis using run by blast
qed

lemma wellServed_grows:
  assumes "heapGrows h h'" "wellServed h r ds"
  shows "wellServed h' r ds"
proof -
  from assms(2) obtain st orig ost where s: "h r = Some st" "isRecoveryState st"
    "dependentState st = Some (hd ds)" "dependentChain h ds" "originatingState st = Some orig"
    "h orig = Some ost" "isNormalState ost"
    unfolding wellServed_def by (auto split: option.splits)
  obtain st' where s': "h' r = Some st'" "grows st st'"
    using heapGrows_Some [OF assms(1) s(1)] by blast
  obtain ost' where o': "h' orig = Some ost'" "isNormalState ost'"
    using heapGrows_normal [OF assms(1) s(6,7)] by blast
  have "isRecoveryState st'" "dependentState st' = Some (hd ds)" "originatingState st' = Some orig"
    using grows_fields [OF s'(2)] s by (simp_all add: isRecoveryState_def)
  moreover have "dependentChain h' ds" using s(4) dependentChain_grows [OF assms(1)] by simp
  ultimately show ?thesis using s'(1) o' by (simp add: wellServed_def)
qed

lemma mergeConstraintsForAll_served:
  assumes "wellServed (heap ex) r ds" "\<not> isConstantExpr c"
  shows "\<exists>h'. mergeConstraintsForAll ex r c = Inr (ex\<lparr> heap := h' \<rparr>) \<and> heapGrows (heap ex) h'"
proof -
  from assms(1) obtain st orig ost where s: "heap ex r = Some st" "isRecoveryState st"
    "dependentState st = Some (hd ds)" "dependentChain (heap ex) ds"
    "originatingState st = Some orig" "heap ex orig = Some ost" "isNormalState ost"
    unfolding wellServed_def by (auto split: option.splits)
  show ?thesis
    using mergeConstraintsForAll_ok [OF s(1,2,3,5,4,6,7) assms(2)] .
qed

lemma mergeConstraintsForAll_both:
  assumes "wellServed (heap ex) a dsa" "wellServed (heap ex) b dsb"
    "\<not> isConstantExpr c1" "\<not> isConstantExpr c2"
  shows "\<exists>h'. (case mergeConstraintsForAll ex a c1 of
                  Inl e \<Rightarrow> Inl e
                | Inr ex4 \<Rightarrow> mergeConstraintsForAll ex4 b c2) = Inr (ex\<lparr> heap := h' \<rparr>) \<and>
              heapGrows (heap ex) h'"
proof -
  obtain h4 where m1: "mergeConstraintsForAll ex a c1 = Inr (ex\<lparr> heap := h4 \<rparr>)"
    "heapGrows (heap ex) h4"
    using mergeConstraintsForAll_served [OF assms(1,3)] by blast
  have "wellServed (heap (ex\<lparr> heap := h4 \<rparr>)) b dsb"
    using wellServed_grows [OF m1(2) assms(2)] by simp
  from mergeConstraintsForAll_served [OF this assms(4)] obtain h5 where
    m2: "mergeConstraintsForAll (ex\<lparr> heap := h4 \<rparr>) b c2 = Inr (ex\<lparr> heap := h5 \<rparr>)"
    "heapGrows h4 h5" by auto
  show ?thesis using m1 m2 heapGrows_trans [OF m1(2) m2(2)] by (intro exI [of _ h5]) simp
qed

lemma constrainedBy_grows:
  assumes "st1 = st\<lparr> constraints := constraints st @ [c], guidingConstraints := g \<rparr>"
    "grows (st1\<lparr> dependentState := d, originatingState := orig \<rparr>) st2"
  shows "constrainedBy c st st2"
proof -
  from assms(2) obtain cs gs where
    "st2 = (st1\<lparr> dependentState := d, originatingState := orig \<rparr>)
             \<lparr> constraints := constraints (st1\<lparr> dependentState := d, originatingState := orig \<rparr>) @ cs,
               guidingConstraints := gs \<rparr>"
    unfolding grows_def by blast
  then have "st2 = st\<lparr> constraints := constraints st @ c # cs, guidingConstraints := gs,
                        originatingState := orig, dependentState := d \<rparr>"
    by (simp add: assms(1))
  then show ?thesis unfolding constrainedBy_def by blast
qed

lemma constrainedBy_grows_same:
  assumes "st1 = st\<lparr> constraints := constraints st @ [c], guidingConstraints := g \<rparr>"
    "grows st1 st2"
  shows "constrainedBy c st st2"
proof -
  have "st1\<lparr> dependentState := dependentState st1, originatingState := originatingState st1 \<rparr> = st1"
    by simp
  then show ?thesis
    using constrainedBy_grows [OF assms(1), where d = "dependentState st1"
        and orig = "originatingState st1" and ?st2.0 = st2] assms(2) by simp
qed

lemma fork_constrain_ok:
  assumes t: "heap ex t = Some tst" and f: "heap ex f = Some fSt" and ne: "t \<noteq> f"
    and role: "(frm = t \<and> sib = f) \<or> (frm = f \<and> sib = t)"
    and c: "\<not> isConstantExpr c"
    and fresh: "\<forall>n \<ge> heapNext ex. heap ex n = None"
    and same: "stateType fSt = stateType tst"
    and served: "isRecoveryState tst \<Longrightarrow> wellServed (heap ex) frm ds \<and> sib \<notin> set ds"
  shows "\<exists>h' N' tst' fSt'.
           fork_constrain ex t f frm sib c = Inr (ex\<lparr> heap := h', heapNext := N' \<rparr>) \<and>
           h' t = Some tst' \<and> h' f = Some fSt' \<and>
           constrainedBy c tst tst' \<and> constrainedBy (createIsZero c) fSt fSt'"
proof -
  define cz where "cz = createIsZero c"
  have czn: "\<not> isConstantExpr cz" using c createIsZero_nonconstant by (simp add: cz_def)
  obtain tst1 g1 where a1: "addConstraint ex t c = Inr (setState ex t tst1)" "grows tst tst1"
    "tst1 = tst\<lparr> constraints := constraints tst @ [c], guidingConstraints := g1 \<rparr>"
    using addConstraint_ok [OF t c] by blast
  define ex1 where "ex1 = setState ex t tst1"
  have f1: "heap ex1 f = Some fSt" using f ne by (simp add: ex1_def setState_def)
  obtain fst1 g2 where a2: "addConstraint ex1 f cz = Inr (setState ex1 f fst1)" "grows fSt fst1"
    "fst1 = fSt\<lparr> constraints := constraints fSt @ [cz], guidingConstraints := g2 \<rparr>"
    using addConstraint_ok [OF f1 czn] by blast
  define h2 where "h2 = (heap ex)(t \<mapsto> tst1, f \<mapsto> fst1)"
  define ex2 where "ex2 = ex\<lparr> heap := h2 \<rparr>"
  have e2: "setState ex1 f fst1 = ex2" by (simp add: ex2_def h2_def ex1_def setState_def)
  have ht: "h2 t = Some tst1" and hf: "h2 f = Some fst1" using ne by (simp_all add: h2_def)
  have g01: "heapGrows (heap ex) ((heap ex)(t \<mapsto> tst1))"
    using heapGrows_upd [of "heap ex" t tst tst1] t a1(2) by simp
  have "heapGrows ((heap ex)(t \<mapsto> tst1)) h2"
    unfolding h2_def
    using heapGrows_upd [of "(heap ex)(t \<mapsto> tst1)" f fSt fst1] f ne a2(2) by simp
  then have g02: "heapGrows (heap ex) h2" using heapGrows_trans [OF g01] by simp
  have rt: "isRecoveryState tst1 = isRecoveryState tst" "isRecoveryState fst1 = isRecoveryState tst"
    using grows_fields [OF a1(2)] grows_fields [OF a2(2)] same by (simp_all add: isRecoveryState_def)
  have hfrm: "\<exists>st. heap ex2 frm = Some st \<and> isRecoveryState st = isRecoveryState tst"
    using role ht hf rt by (auto simp: ex2_def)
  have start: "fork_constrain ex t f frm sib c =
      (case heap ex2 frm of
         None \<Rightarrow> Inl NullPointer
       | Some fromSt \<Rightarrow>
           if isRecoveryState fromSt then
             (case forkDependentStates ex2 frm sib of
                Inl e \<Rightarrow> Inl e
              | Inr ex3 \<Rightarrow>
                  (case mergeConstraintsForAll ex3 t c of
                     Inl e \<Rightarrow> Inl e
                   | Inr ex4 \<Rightarrow> mergeConstraintsForAll ex4 f (createIsZero c)))
           else Inr ex2)"
    unfolding fork_constrain_def using a1(1) a2(1) [unfolded cz_def] e2
    by (simp add: ex1_def [symmetric])
  show ?thesis
  proof (cases "isRecoveryState tst")
    case False
    have "fork_constrain ex t f frm sib c = Inr ex2"
      using start hfrm False by auto
    then have "fork_constrain ex t f frm sib c = Inr (ex\<lparr> heap := h2, heapNext := heapNext ex \<rparr>)"
      by (simp add: ex2_def)
    moreover have "constrainedBy c tst tst1"
      using constrainedBy_grows_same [OF a1(3) grows_refl] .
    moreover have "constrainedBy cz fSt fst1"
      using constrainedBy_grows_same [OF a2(3) grows_refl] .
    ultimately show ?thesis using ht hf unfolding cz_def by blast
  next
    case True
    define N where "N = heapNext ex"
    from served [OF True] have sv: "wellServed (heap ex) frm ds" and sd: "sib \<notin> set ds" by simp_all
    have sv2: "wellServed h2 frm ds" using wellServed_grows [OF g02 sv] .
    then obtain frm2 orig ost where fr: "h2 frm = Some frm2" "isRecoveryState frm2"
      "dependentState frm2 = Some (hd ds)" "dependentChain h2 ds"
      "originatingState frm2 = Some orig" "h2 orig = Some ost" "isNormalState ost"
      unfolding wellServed_def by (auto split: option.splits)
    obtain sib2 where sb: "h2 sib = Some sib2" "isRecoveryState sib2"
      using role ht hf rt True by auto
    have fsne: "frm \<noteq> sib" using role ne by auto
    have fresh2: "\<forall>n \<ge> heapNext ex2. heap ex2 n = None"
      using fresh heapGrows_None [OF g02] by (simp add: ex2_def)
    have lt: "\<And>x. h2 x \<noteq> None \<Longrightarrow> x < N"
      using fresh2 unfolding N_def ex2_def by (metis not_le_imp_less select_convs(1) select_convs(2) surjective update_convs(1))
    from forkDependentStates_ok [of ex2 frm frm2 ds sib sib2] fr sb sd fresh2
    obtain h3 N3 fs fo where
      fd: "forkDependentStates ex2 frm sib = Inr (ex2\<lparr> heap := h3, heapNext := N3 \<rparr>)"
      "\<forall>x. x < N \<and> x \<noteq> sib \<longrightarrow> h3 x = h2 x"
      "h3 sib = Some (sib2\<lparr> dependentState := Some (hd fs), originatingState := Some fo \<rparr>)"
      "dependentChain h3 fs" "\<exists>fost. h3 fo = Some fost \<and> isNormalState fost"
      unfolding N_def by (auto simp: ex2_def)
    define ex3 where "ex3 = ex\<lparr> heap := h3, heapNext := N3 \<rparr>"
    have e3: "ex2\<lparr> heap := h3, heapNext := N3 \<rparr> = ex3" by (simp add: ex2_def ex3_def)
    have h3frm: "h3 frm = Some frm2" using fd(2) lt [of frm] fr(1) fsne by simp
    have "\<forall>x \<in> set ds. h3 x = h2 x"
      using dependentChain_dom [OF fr(4)] lt sd fd(2) by metis
    then have ch3: "dependentChain h3 ds"
      using fr(4) dependentChain_cong [of ds h3 h2] by simp
    have o3: "\<exists>ost3. h3 orig = Some ost3 \<and> isNormalState ost3"
    proof (cases "orig = sib")
      case True
      then have "isNormalState sib2" using fr(6,7) sb(1) by simp
      then show ?thesis using fd(3) True by (simp add: isNormalState_def)
    next
      case False
      then have "h3 orig = h2 orig" using fd(2) lt [of orig] fr(6) by simp
      then show ?thesis using fr(6,7) by simp
    qed
    have w3f: "wellServed h3 frm ds"
      using h3frm fr(2,3,5) ch3 o3 by (auto simp: wellServed_def)
    have w3s: "wellServed h3 sib fs"
      using fd(3,4,5) sb(2) by (auto simp: wellServed_def isRecoveryState_def)
    obtain dst dsf where w3: "wellServed (heap ex3) t dst" "wellServed (heap ex3) f dsf"
      using role w3f w3s by (auto simp: ex3_def)
    from mergeConstraintsForAll_both [OF w3 c czn] obtain h5 where
      mg: "(case mergeConstraintsForAll ex3 t c of
              Inl e \<Rightarrow> Inl e
            | Inr ex4 \<Rightarrow> mergeConstraintsForAll ex4 f (createIsZero c)) = Inr (ex3\<lparr> heap := h5 \<rparr>)"
      "heapGrows h3 h5" unfolding cz_def by (auto simp: ex3_def)
    have run: "fork_constrain ex t f frm sib c = Inr (ex\<lparr> heap := h5, heapNext := N3 \<rparr>)"
      using start fr(1,2) fd(1) e3 mg(1) by (simp add: ex2_def ex3_def)
    have "\<exists>d orig. h3 frm = Some (frm2\<lparr> dependentState := d, originatingState := orig \<rparr>)"
      by (rule exI [of _ "dependentState frm2"], rule exI [of _ "originatingState frm2"])
         (simp add: h3frm)
    moreover have "\<exists>d orig. h3 sib = Some (sib2\<lparr> dependentState := d, originatingState := orig \<rparr>)"
      using fd(3) by blast
    moreover have "(frm = t \<and> sib = f \<and> frm2 = tst1 \<and> sib2 = fst1) \<or>
                   (frm = f \<and> sib = t \<and> frm2 = fst1 \<and> sib2 = tst1)"
      using role fr(1) sb(1) ht hf by auto
    ultimately obtain dt ot df orf where
      h3t: "h3 t = Some (tst1\<lparr> dependentState := dt, originatingState := ot \<rparr>)"
      and h3f: "h3 f = Some (fst1\<lparr> dependentState := df, originatingState := orf \<rparr>)"
      by (elim disjE conjE exE) (simp, blast)+
    obtain tst5 where t5: "h5 t = Some tst5"
      "grows (tst1\<lparr> dependentState := dt, originatingState := ot \<rparr>) tst5"
      using heapGrows_Some [OF mg(2) h3t] by blast
    obtain fst5 where f5: "h5 f = Some fst5"
      "grows (fst1\<lparr> dependentState := df, originatingState := orf \<rparr>) fst5"
      using heapGrows_Some [OF mg(2) h3f] by blast
    have "constrainedBy c tst tst5" using constrainedBy_grows [OF a1(3) t5(2)] .
    moreover have "constrainedBy cz fSt fst5" using constrainedBy_grows [OF a2(3) f5(2)] .
    ultimately show ?thesis using run t5(1) f5(1) unfolding cz_def by blast
  qed
qed

lemma dependentChain_links:
  assumes "\<forall>x st. h x = Some st \<longrightarrow> (\<exists>st'. h' x = Some st' \<and> skeleton st' = skeleton st)"
    "dependentChain h ds"
  shows "dependentChain h' ds"
proof -
  have "\<forall>x \<in> set ds. map_option skeleton (h' x) = map_option skeleton (h x)"
    using dependentChain_dom [OF assms(2)] assms(1) by fastforce
  then show ?thesis using assms(2) dependentChain_cong [of ds h' h] by simp
qed

lemma wellServed_links:
  assumes "\<forall>x st. h x = Some st \<longrightarrow>
             (\<exists>st'. h' x = Some st' \<and> skeleton st' = skeleton st \<and>
                    originatingState st' = originatingState st)"
    "wellServed h r ds"
  shows "wellServed h' r ds"
proof -
  from assms(2) obtain st orig ost where s: "h r = Some st" "isRecoveryState st"
    "dependentState st = Some (hd ds)" "dependentChain h ds" "originatingState st = Some orig"
    "h orig = Some ost" "isNormalState ost"
    unfolding wellServed_def by (auto split: option.splits)
  obtain st' where s': "h' r = Some st'" "skeleton st' = skeleton st"
    "originatingState st' = originatingState st"
    using assms(1) s(1) by blast
  obtain ost' where o': "h' orig = Some ost'" "skeleton ost' = skeleton ost"
    using assms(1) s(6) by blast
  have "isRecoveryState st'" "dependentState st' = Some (hd ds)" "originatingState st' = Some orig"
    using s' s by (simp_all add: isRecoveryState_def skeleton_def)
  moreover have "dependentChain h' ds" using dependentChain_links [OF _ s(4)] assms(1) by blast
  moreover have "isNormalState ost'" using o'(2) s(7) by (simp add: isNormalState_def skeleton_def)
  ultimately show ?thesis using s'(1) o'(1) by (simp add: wellServed_def)
qed

lemma wellServed_dom: "wellServed h r ds \<Longrightarrow> \<forall>x \<in> set ds. h x \<noteq> None"
  unfolding wellServed_def by (auto split: option.splits dest: dependentChain_dom)

lemma erasePrefixes_ok:
  "\<forall>p \<in> set ps. d < length (fst p) \<Longrightarrow>
   erasePrefixes c d ps = Inr (filter (\<lambda>p. fst p ! d \<noteq> c) ps)"
  by (induction ps) (simp_all add: charAt_def)

lemma constrainedBy_fields:
  "constrainedBy c st st' \<Longrightarrow>
     (\<exists>cs. constraints st' = constraints st @ c # cs) \<and> depth st' = depth st \<and>
     branchHist st' = branchHist st \<and> prefixes st' = prefixes st \<and>
     stateType st' = stateType st \<and> suspendStatus st' = suspendStatus st"
  unfolding constrainedBy_def by auto

lemma fork_record_constrain_ok:
  assumes t: "heap ex t = Some tst" and f: "heap ex f = Some fSt" and ne: "t \<noteq> f"
    and role: "(frm = t \<and> sib = f) \<or> (frm = f \<and> sib = t)"
    and c: "\<not> isConstantExpr c"
    and fresh: "\<forall>n \<ge> heapNext ex. heap ex n = None"
    and same: "stateType fSt = stateType tst"
    and served: "isRecoveryState tst \<Longrightarrow> wellServed (heap ex) frm ds \<and> sib \<notin> set ds"
  shows "\<exists>h' N' tst' fSt'.
           (case fork_record ex t f False of
              Inl e \<Rightarrow> Inl e
            | Inr ex3 \<Rightarrow> fork_constrain ex3 t f frm sib c)
             = Inr (ex\<lparr> heap := h', heapNext := N' \<rparr>) \<and>
           h' t = Some tst' \<and> h' f = Some fSt' \<and>
           constrainedBy c
             (tst\<lparr> depth := Suc (depth tst), branchHist := branchHist tst @ [CHR ''0''] \<rparr>) tst' \<and>
           constrainedBy (createIsZero c)
             (fSt\<lparr> depth := Suc (depth fSt), branchHist := branchHist fSt @ [CHR ''1''] \<rparr>) fSt'"
proof -
  define tst1 where "tst1 = tst\<lparr> depth := Suc (depth tst), branchHist := branchHist tst @ [CHR ''0''] \<rparr>"
  define fst1 where "fst1 = fSt\<lparr> depth := Suc (depth fSt), branchHist := branchHist fSt @ [CHR ''1''] \<rparr>"
  define h3 where "h3 = (heap ex)(t \<mapsto> tst1, f \<mapsto> fst1)"
  define ex3 where "ex3 = ex\<lparr> heap := h3 \<rparr>"
  have rec: "fork_record ex t f False = Inr ex3"
    using t f ne
    by (simp add: fork_record_def recordBranch_def setState_def ex3_def h3_def tst1_def fst1_def)
  have t3: "heap ex3 t = Some tst1" and f3: "heap ex3 f = Some fst1"
    using ne by (simp_all add: ex3_def h3_def)
  have fresh3: "\<forall>n \<ge> heapNext ex3. heap ex3 n = None"
    using fresh t f by (auto simp: ex3_def h3_def)
  have same3: "stateType fst1 = stateType tst1" using same by (simp add: tst1_def fst1_def)
  have links: "\<forall>x st. heap ex x = Some st \<longrightarrow>
                 (\<exists>st'. h3 x = Some st' \<and> skeleton st' = skeleton st \<and>
                        originatingState st' = originatingState st)"
    using t f by (auto simp: h3_def tst1_def fst1_def skeleton_def)
  have served3: "isRecoveryState tst1 \<Longrightarrow> wellServed (heap ex3) frm ds \<and> sib \<notin> set ds"
  proof -
    assume "isRecoveryState tst1"
    then have "isRecoveryState tst" by (simp add: tst1_def isRecoveryState_def)
    from served [OF this] show ?thesis
      using wellServed_links [OF links] by (simp add: ex3_def)
  qed
  from fork_constrain_ok [OF t3 f3 ne role c fresh3 same3 served3]
  obtain h' N' tst' fSt' where
    r: "fork_constrain ex3 t f frm sib c = Inr (ex3\<lparr> heap := h', heapNext := N' \<rparr>)"
    "h' t = Some tst'" "h' f = Some fSt'"
    "constrainedBy c tst1 tst'" "constrainedBy (createIsZero c) fst1 fSt'"
    by blast
  have "ex3\<lparr> heap := h', heapNext := N' \<rparr> = ex\<lparr> heap := h', heapNext := N' \<rparr>"
    by (simp add: ex3_def)
  then show ?thesis using rec r unfolding tst1_def fst1_def by auto
qed

lemma fork_children_ok:
  assumes s: "heap ex s = Some st"
    and fresh: "\<forall>n \<ge> heapNext ex. heap ex n = None"
    and c: "\<not> isConstantExpr c"
    and served: "isRecoveryState st \<Longrightarrow> wellServed (heap ex) s ds"
    and h2: "heap ex2 = (heap ex)(heapNext ex \<mapsto> st\<lparr> prefixes := pN \<rparr>, s \<mapsto> st\<lparr> prefixes := pS \<rparr>)"
    and n2: "heapNext ex2 = Suc (heapNext ex)"
    and role: "(t = s \<and> f = heapNext ex \<and> pT = pS \<and> pF = pN) \<or>
               (t = heapNext ex \<and> f = s \<and> pT = pN \<and> pF = pS)"
  shows "\<exists>h' N' tst' fSt'.
           (case fork_record ex2 t f False of
              Inl e \<Rightarrow> Inl e
            | Inr ex3 \<Rightarrow> fork_constrain ex3 t f s (heapNext ex) c)
             = Inr (ex2\<lparr> heap := h', heapNext := N' \<rparr>) \<and>
           h' t = Some tst' \<and> h' f = Some fSt' \<and>
           constrainedBy c
             (st\<lparr> prefixes := pT, depth := Suc (depth st),
                  branchHist := branchHist st @ [CHR ''0''] \<rparr>) tst' \<and>
           constrainedBy (createIsZero c)
             (st\<lparr> prefixes := pF, depth := Suc (depth st),
                  branchHist := branchHist st @ [CHR ''1''] \<rparr>) fSt'"
proof -
  define N where "N = heapNext ex"
  have sN: "s \<noteq> N" using s fresh unfolding N_def by auto
  have hN: "heap ex N = None" using fresh unfolding N_def by simp
  have hs2: "heap ex2 s = Some (st\<lparr> prefixes := pS \<rparr>)" by (simp add: h2)
  have hn2: "heap ex2 N = Some (st\<lparr> prefixes := pN \<rparr>)" using sN by (simp add: h2 N_def)
  have role': "(t = s \<and> f = N \<and> pT = pS \<and> pF = pN) \<or> (t = N \<and> f = s \<and> pT = pN \<and> pF = pS)"
    using role unfolding N_def .
  have t2: "heap ex2 t = Some (st\<lparr> prefixes := pT \<rparr>)"
    using role' hs2 hn2 by metis
  have f2: "heap ex2 f = Some (st\<lparr> prefixes := pF \<rparr>)"
    using role' hs2 hn2 by metis
  have ne: "t \<noteq> f" using role' sN by metis
  have role2: "(s = t \<and> N = f) \<or> (s = f \<and> N = t)" using role' by metis
  have fresh2: "\<forall>n \<ge> heapNext ex2. heap ex2 n = None"
    using fresh s h2 n2 by auto
  have links: "\<forall>x st0. heap ex x = Some st0 \<longrightarrow>
                 (\<exists>st'. heap ex2 x = Some st' \<and> skeleton st' = skeleton st0 \<and>
                        originatingState st' = originatingState st0)"
    using s hN h2 unfolding N_def by (auto simp: skeleton_def)
  have served2: "isRecoveryState (st\<lparr> prefixes := pT \<rparr>) \<Longrightarrow>
                   wellServed (heap ex2) s ds \<and> N \<notin> set ds"
  proof -
    assume "isRecoveryState (st\<lparr> prefixes := pT \<rparr>)"
    then have "isRecoveryState st" by (simp add: isRecoveryState_def)
    from served [OF this] show ?thesis
      using wellServed_links [OF links] wellServed_dom hN by blast
  qed
  have same: "stateType (st\<lparr> prefixes := pF \<rparr>) = stateType (st\<lparr> prefixes := pT \<rparr>)" by simp
  from fork_record_constrain_ok [OF t2 f2 ne role2 c fresh2 same served2]
  show ?thesis unfolding N_def by simp
qed




lemma fork_unknown_ok:
  assumes s: "heap ex s = Some st"
    and fresh: "\<forall>n \<ge> heapNext ex. heap ex n = None"
    and c: "\<not> isConstantExpr c"
    and served: "isRecoveryState st \<Longrightarrow> wellServed (heap ex) s ds"
    and buf: "coreId ex \<noteq> 0 \<Longrightarrow> \<forall>p \<in> set (prefixes st). depth st < length (fst p)"
    and pA: "pA = (if coreId ex \<noteq> 0
                   then filter (\<lambda>p. fst p ! depth st \<noteq> CHR ''1'') (prefixes st)
                   else prefixes st)"
    and pB: "pB = (if coreId ex \<noteq> 0
                   then filter (\<lambda>p. fst p ! depth st \<noteq> CHR ''0'') (prefixes st)
                   else prefixes st)"
  shows "\<exists>ex' stA stB.
           fork_unknown ex s c False = Inr ((Some s, Some (heapNext ex)), ex') \<and>
           rangingSuspendedStates ex' = rangingSuspendedStates ex \<and>
           addedStates ex' = addedStates ex @ [heapNext ex] \<and> forks ex' = Suc (forks ex) \<and>
           heap ex' s = Some stA \<and> heap ex' (heapNext ex) = Some stB \<and>
           constrainedBy c
             (st\<lparr> prefixes := pA, depth := Suc (depth st),
                  branchHist := branchHist st @ [CHR ''0''] \<rparr>) stA \<and>
           constrainedBy (createIsZero c)
             (st\<lparr> prefixes := pB, depth := Suc (depth st),
                  branchHist := branchHist st @ [CHR ''1''] \<rparr>) stB"
proof -
  define N where "N = heapNext ex"
  have sN: "s \<noteq> N" using s fresh unfolding N_def by auto
  define ex1 where "ex1 = ex\<lparr> forks := Suc (forks ex), heap := (heap ex)(N \<mapsto> st),
                              heapNext := Suc N \<rparr>"
  define ex2 where "ex2 = (if isRecoveryState st then ex1
                           else ex1\<lparr> nonRecoveryStates := insert N (nonRecoveryStates ex1) \<rparr>)"
  define ex2a where "ex2a = ex2\<lparr> addedStates := addedStates ex2 @ [N] \<rparr>"
  define ex3 where "ex3 = ex2a\<lparr> heap := (heap ex)(N \<mapsto> st\<lparr> prefixes := pB \<rparr>,
                                                   s \<mapsto> st\<lparr> prefixes := pA \<rparr>) \<rparr>"
  have b: "branch (ex\<lparr> forks := Suc (forks ex) \<rparr>) s = Inr (N, ex1)"
    using s by (simp add: branch_def ex1_def N_def)
  have n: "noteNonRecovery ex1 N = Inr ex2"
    by (simp add: noteNonRecovery_def ex1_def ex2_def)
  have hs: "heap ex2a s = Some st" and hn: "heap ex2a N = Some st"
    and cid: "coreId ex2a = coreId ex"
    using s sN by (auto simp: ex2a_def ex2_def ex1_def)
  have pf: "fork_prefixes ex2a s N = Inr ex3"
  proof (cases "coreId ex = 0")
    case True
    then have "pA = prefixes st" "pB = prefixes st" using pA pB by simp_all
    moreover have "(heap ex)(N \<mapsto> st, s \<mapsto> st) = (heap ex)(N \<mapsto> st)"
      using s by (intro ext) simp
    ultimately have "ex3 = ex2a"
      by (simp add: ex3_def ex2a_def ex2_def ex1_def)
    then show ?thesis using True cid by (simp add: fork_prefixes_def)
  next
    case False
    have e1: "erasePrefixes (CHR ''1'') (depth st) (prefixes st) = Inr pA"
      using erasePrefixes_ok [OF buf [OF False]] pA False by simp
    have e0: "erasePrefixes (CHR ''0'') (depth st) (prefixes st) = Inr pB"
      using erasePrefixes_ok [OF buf [OF False]] pB False by simp
    have "(heap ex)(N \<mapsto> st, s \<mapsto> st\<lparr> prefixes := pA \<rparr>, N \<mapsto> st\<lparr> prefixes := pB \<rparr>)
            = (heap ex)(N \<mapsto> st\<lparr> prefixes := pB \<rparr>, s \<mapsto> st\<lparr> prefixes := pA \<rparr>)"
      using sN by (intro ext) simp
    then have "setState (setState ex2a s (st\<lparr> prefixes := pA \<rparr>)) N (st\<lparr> prefixes := pB \<rparr>) = ex3"
      by (simp add: setState_def ex3_def ex2a_def ex2_def ex1_def)
    then show ?thesis
      using False cid hs hn sN e1 e0
      by (simp add: fork_prefixes_def removeFalsePrefixes_def removeTruePrefixes_def
          Let_def setState_def)
  qed
  have h3: "heap ex3 = (heap ex)(heapNext ex \<mapsto> st\<lparr> prefixes := pB \<rparr>,
                                  s \<mapsto> st\<lparr> prefixes := pA \<rparr>)"
    by (simp add: ex3_def N_def)
  have n3: "heapNext ex3 = Suc (heapNext ex)"
    by (simp add: ex3_def ex2a_def ex2_def ex1_def N_def)
  from fork_children_ok [OF s fresh c served h3 n3, of s N pA pB]
  obtain h' N' stA stB where
    r: "(case fork_record ex3 s N False of
           Inl e \<Rightarrow> Inl e
         | Inr ex4 \<Rightarrow> fork_constrain ex4 s N s N c) = Inr (ex3\<lparr> heap := h', heapNext := N' \<rparr>)"
    "h' s = Some stA" "h' N = Some stB"
    "constrainedBy c
       (st\<lparr> prefixes := pA, depth := Suc (depth st),
            branchHist := branchHist st @ [CHR ''0''] \<rparr>) stA"
    "constrainedBy (createIsZero c)
       (st\<lparr> prefixes := pB, depth := Suc (depth st),
            branchHist := branchHist st @ [CHR ''1''] \<rparr>) stB"
    unfolding N_def by auto
  define ex' where "ex' = ex3\<lparr> heap := h', heapNext := N' \<rparr>"
  have run: "fork_unknown ex s c False = Inr ((Some s, Some N), ex')"
    using b n pf r(1)
    by (auto simp: fork_unknown_def ex'_def ex2a_def split: sum.splits)
  have "rangingSuspendedStates ex' = rangingSuspendedStates ex"
    "addedStates ex' = addedStates ex @ [N]" "forks ex' = Suc (forks ex)"
    "heap ex' s = Some stA" "heap ex' N = Some stB"
    using r(2,3) by (simp_all add: ex'_def ex3_def ex2a_def ex2_def ex1_def)
  then show ?thesis using run r(4,5) unfolding N_def by blast
qed

section \<open>Prefix-guided forking\<close>























section \<open>What every fork that returns two children has done\<close>

lemma advances_refl: "advances ex ex"
  unfolding advances_def by auto

lemma advances_trans:
  assumes "advances a b" "advances b c"
  shows "advances a c"
  unfolding advances_def
proof (intro impI)
  assume fa: "\<forall>n \<ge> heapNext a. heap a n = None"
  then have fb: "\<forall>n \<ge> heapNext b. heap b n = None"
    and ab: "\<forall>x st. heap a x = Some st \<longrightarrow>
               (\<exists>st'. heap b x = Some st' \<and> depth st' = depth st \<and>
                      branchHist st' = branchHist st \<and> prefix (constraints st) (constraints st'))"
    using assms(1) unfolding advances_def by blast+
  from fb have fc: "\<forall>n \<ge> heapNext c. heap c n = None"
    and bc: "\<forall>x st. heap b x = Some st \<longrightarrow>
               (\<exists>st'. heap c x = Some st' \<and> depth st' = depth st \<and>
                      branchHist st' = branchHist st \<and> prefix (constraints st) (constraints st'))"
    using assms(2) unfolding advances_def by blast+
  have "\<exists>st'. heap c x = Some st' \<and> depth st' = depth st \<and>
              branchHist st' = branchHist st \<and> prefix (constraints st) (constraints st')"
    if "heap a x = Some st" for x st
  proof -
    from ab that obtain st1 where s1: "heap b x = Some st1" "depth st1 = depth st"
      "branchHist st1 = branchHist st" "prefix (constraints st) (constraints st1)" by blast
    from bc s1(1) obtain st2 where s2: "heap c x = Some st2" "depth st2 = depth st1"
      "branchHist st2 = branchHist st1" "prefix (constraints st1) (constraints st2)" by blast
    show ?thesis using s1 s2 by (auto intro: prefix_order.order_trans)
  qed
  then show "(\<forall>n \<ge> heapNext c. heap c n = None) \<and>
        (\<forall>x st. heap a x = Some st \<longrightarrow>
           (\<exists>st'. heap c x = Some st' \<and> depth st' = depth st \<and>
                  branchHist st' = branchHist st \<and>
                  prefix (constraints st) (constraints st')))"
    using fc by blast
qed

lemma advances_setState:
  assumes "heap ex x = Some st" "depth st' = depth st" "branchHist st' = branchHist st"
    "prefix (constraints st) (constraints st')"
  shows "advances ex (setState ex x st')"
  unfolding advances_def setState_def using assms by auto

lemma ExecutionState_addConstraint_adv:
  "ExecutionState_addConstraint st c = Inr st' \<Longrightarrow>
   depth st' = depth st \<and> branchHist st' = branchHist st \<and> prefixes st' = prefixes st \<and>
   (\<exists>gs. st' = st\<lparr> constraints := constraints st @ [c], guidingConstraints := gs \<rparr>)"
  using ExecutionState_addConstraint_ok [of st c] by auto

lemma addConstraint_adv: "addConstraint ex s c = Inr ex' \<Longrightarrow> advances ex ex'"
  by (auto simp: addConstraint_def advances_refl split: expr.splits option.splits sum.splits if_splits
      dest!: ExecutionState_addConstraint_adv intro!: advances_setState)

lemma forkDependentStates_copy_adv:
  assumes "forkDependentStates_copy ex c p = Some r"
  shows "\<forall>fo ex'. r = Inr (fo, ex') \<longrightarrow> advances ex ex'"
proof (rule forkDependentStates_copy.raw_induct
    [where P = "\<lambda>ex c p r. \<forall>fo ex'. r = Inr (fo, ex') \<longrightarrow> advances ex ex'",
      OF _ assms], goal_cases)
  case (1 f ex current prevForked r)
  show ?case
  proof (intro allI impI)
    fix fo ex' assume r: "r = Inr (fo, ex')"
    from 1(2) r obtain cst pst where
      c: "heap ex current = Some cst" and p: "heap ex prevForked = Some pst"
      by (auto simp: Let_def split: option.splits if_splits)
    define ex1 where "ex1 = ex\<lparr> heap := (heap ex)
                         (heapNext ex \<mapsto> cst\<lparr>recoveryState := Some prevForked\<rparr>,
                          prevForked \<mapsto> pst\<lparr>dependentState := Some (heapNext ex)\<rparr>),
                       heapNext := Suc (heapNext ex) \<rparr>"
    have k1: "advances ex ex1"
      unfolding advances_def
    proof (intro impI conjI allI)
      assume fr: "\<forall>n \<ge> heapNext ex. heap ex n = None"
      then have pN: "prevForked < heapNext ex" using p by (metis not_le_imp_less option.distinct(1))
      show "heapNext ex1 \<le> n \<Longrightarrow> heap ex1 n = None" for n
        using fr pN by (simp add: ex1_def)
      show "\<exists>st'. heap ex1 x = Some st' \<and> depth st' = depth st \<and>
                  branchHist st' = branchHist st \<and> prefix (constraints st) (constraints st')"
        if "heap ex x = Some st" for x st
      proof -
        have "x \<noteq> heapNext ex" using fr that by auto
        then show ?thesis using that p by (auto simp: ex1_def)
      qed
    qed
    from 1(2) r c p have
      "(\<exists>fo'. r = Inr (fo', ex1)) \<or> (\<exists>nxt. f ex1 nxt (heapNext ex) = Some r)"
      by (auto simp: Let_def ex1_def split: option.splits if_splits)
    then show "advances ex ex'"
    proof
      assume "\<exists>fo'. r = Inr (fo', ex1)"
      then have "ex' = ex1" using r by auto
      then show ?thesis using k1 by simp
    next
      assume "\<exists>nxt. f ex1 nxt (heapNext ex) = Some r"
      then obtain nxt where "f ex1 nxt (heapNext ex) = Some r" by blast
      from 1(1) [OF this] r have "advances ex1 ex'" by blast
      then show ?thesis using advances_trans [OF k1] by simp
    qed
  qed
qed

lemma forkDependentStates_originating_adv:
  assumes "forkDependentStates_originating ex c fo = Some r"
  shows "\<forall>ex'. r = Inr ex' \<longrightarrow> advances ex ex'"
proof (rule forkDependentStates_originating.raw_induct
    [where P = "\<lambda>ex c fo r. \<forall>ex'. r = Inr ex' \<longrightarrow> advances ex ex'",
      OF _ assms], goal_cases)
  case (1 f ex current fo r)
  show ?case
  proof (intro allI impI)
    fix ex' assume r: "r = Inr ex'"
    show "advances ex ex'"
    proof (cases "heap ex current")
      case None with 1(2) r show ?thesis by simp
    next
      case (Some cst)
      have k1: "advances ex (setState ex current (cst\<lparr>originatingState := x\<rparr>))" for x
        using Some by (auto intro!: advances_setState)
      from 1(2) r Some show ?thesis
        by (auto simp: Let_def advances_refl split: option.splits if_splits
            dest!: 1(1) intro: advances_trans [OF k1] k1)
    qed
  qed
qed

lemma forkDependentStates_adv:
  "forkDependentStates ex t f = Inr ex' \<Longrightarrow> advances ex ex'"
  apply (auto simp: forkDependentStates_def split: option.splits if_splits sum.splits
      dest!: forkDependentStates_copy_adv forkDependentStates_originating_adv)
  apply (erule (1) advances_trans)
  done

lemma mergeConstraints_adv:
  "mergeConstraints ex d c = Inr ex' \<Longrightarrow> advances ex ex'"
  by (auto simp: mergeConstraints_def split: option.splits if_splits dest: addConstraint_adv)

lemma mergeConstraintsForAll_loop_adv:
  assumes "mergeConstraintsForAll_loop ex n c = Some r"
  shows "\<forall>ex'. r = Inr ex' \<longrightarrow> advances ex ex'"
proof (rule mergeConstraintsForAll_loop.raw_induct
    [where P = "\<lambda>ex n c r. \<forall>ex'. r = Inr ex' \<longrightarrow> advances ex ex'",
      OF _ assms], goal_cases)
  case (1 f ex n c r)
  from 1(2) show ?case
    by (auto split: option.splits if_splits sum.splits dest!: mergeConstraints_adv 1(1)
        intro: advances_trans)
qed

lemma mergeConstraintsForAll_adv:
  "mergeConstraintsForAll ex s c = Inr ex' \<Longrightarrow> advances ex ex'"
  apply (auto simp: mergeConstraintsForAll_def addGuidingConstraint_def
      split: option.splits if_splits sum.splits
      dest!: mergeConstraintsForAll_loop_adv)
  apply (erule advances_trans)
  apply (rule advances_setState)
     apply auto
  done

lemma fork_constrain_tail_adv:
  assumes "(case heap ex2 frm of
              None \<Rightarrow> Inl NullPointer
            | Some fromSt \<Rightarrow>
                if isRecoveryState fromSt then
                  (case forkDependentStates ex2 frm sib of
                     Inl e \<Rightarrow> Inl e
                   | Inr ex3 \<Rightarrow>
                       (case mergeConstraintsForAll ex3 t c of
                          Inl e \<Rightarrow> Inl e
                        | Inr ex4 \<Rightarrow> mergeConstraintsForAll ex4 f c'))
                else Inr ex2) = Inr ex'"
  shows "advances ex2 ex'"
proof (cases "heap ex2 frm")
  case None
  then show ?thesis using assms by simp
next
  case (Some fromSt)
  show ?thesis
  proof (cases "isRecoveryState fromSt")
    case False
    then show ?thesis using assms Some by (simp add: advances_refl)
  next
    case True
    then obtain ex3 ex4 where "forkDependentStates ex2 frm sib = Inr ex3"
      "mergeConstraintsForAll ex3 t c = Inr ex4" "mergeConstraintsForAll ex4 f c' = Inr ex'"
      using assms Some by (auto split: sum.splits)
    then have "advances ex2 ex3" "advances ex3 ex4" "advances ex4 ex'"
      by (simp_all add: forkDependentStates_adv mergeConstraintsForAll_adv)
    then show ?thesis using advances_trans by metis
  qed
qed

lemma fork_constrain_children:
  assumes run: "fork_constrain ex t f frm sib c = Inr ex'"
    and t: "heap ex t = Some tst" and f: "heap ex f = Some fSt" and ne: "t \<noteq> f"
    and fresh: "\<forall>n \<ge> heapNext ex. heap ex n = None"
  shows "\<exists>tst' fSt'.
           heap ex' t = Some tst' \<and> heap ex' f = Some fSt' \<and>
           depth tst' = depth tst \<and> branchHist tst' = branchHist tst \<and>
           prefix (constraints tst @ [c]) (constraints tst') \<and>
           depth fSt' = depth fSt \<and> branchHist fSt' = branchHist fSt \<and>
           prefix (constraints fSt @ [createIsZero c]) (constraints fSt')"
proof -
  from run obtain ex1 ex2 where a1: "addConstraint ex t c = Inr ex1"
    and a2: "addConstraint ex1 f (createIsZero c) = Inr ex2"
    by (auto simp: fork_constrain_def split: sum.splits)
  have cn: "\<not> isConstantExpr c"
  proof
    assume "isConstantExpr c"
    then obtain n where n: "c = ConstantExpr n" by (cases c) auto
    with a1 have "n = 1" "ex1 = ex" by (auto simp: addConstraint_def split: if_splits)
    with a2 n show False by (simp add: addConstraint_def)
  qed
  obtain tst1 where b1: "addConstraint ex t c = Inr (setState ex t tst1)"
    "constraints tst1 = constraints tst @ [c]" "grows tst tst1"
    using addConstraint_ok [OF t cn] by blast
  have e1: "ex1 = setState ex t tst1" using a1 b1(1) by simp
  have f1: "heap ex1 f = Some fSt" using f ne by (simp add: e1 setState_def)
  obtain fst1 where b2: "addConstraint ex1 f (createIsZero c) = Inr (setState ex1 f fst1)"
    "constraints fst1 = constraints fSt @ [createIsZero c]" "grows fSt fst1"
    using addConstraint_ok [OF f1 createIsZero_nonconstant [OF cn]] by blast
  have e2: "ex2 = setState ex1 f fst1" using a2 b2(1) by simp
  have h2: "heap ex2 t = Some tst1" "heap ex2 f = Some fst1"
    using ne by (simp_all add: e2 e1 setState_def)
  have fresh2: "\<forall>n \<ge> heapNext ex2. heap ex2 n = None"
    using fresh t f by (auto simp: e2 e1 setState_def)
  have "advances ex2 ex'"
    using run a1 a2 fork_constrain_tail_adv [where ?ex2.0 = ex2 and frm = frm and sib = sib
        and t = t and c = c and f = f and c' = "createIsZero c" and ex' = ex']
    by (simp add: fork_constrain_def)
  then have adv: "\<forall>x st. heap ex2 x = Some st \<longrightarrow>
           (\<exists>st'. heap ex' x = Some st' \<and> depth st' = depth st \<and>
                  branchHist st' = branchHist st \<and> prefix (constraints st) (constraints st'))"
    using fresh2 unfolding advances_def by blast
  from adv h2(1) obtain tst' where t': "heap ex' t = Some tst'" "depth tst' = depth tst1"
    "branchHist tst' = branchHist tst1" "prefix (constraints tst1) (constraints tst')" by blast
  from adv h2(2) obtain fSt' where f': "heap ex' f = Some fSt'" "depth fSt' = depth fst1"
    "branchHist fSt' = branchHist fst1" "prefix (constraints fst1) (constraints fSt')" by blast
  show ?thesis
    using t' f' b1(2) b2(2) grows_fields [OF b1(3)] grows_fields [OF b2(3)] by auto
qed

lemma fork_prefixes_children:
  assumes "fork_prefixes ex t f = Inr ex'" "heap ex t = Some tst" "heap ex f = Some fSt" "t \<noteq> f"
  shows "\<exists>pA pB. heap ex' = (heap ex)(t \<mapsto> tst\<lparr> prefixes := pA \<rparr>, f \<mapsto> fSt\<lparr> prefixes := pB \<rparr>) \<and>
                 heapNext ex' = heapNext ex"
proof (cases "coreId ex = 0")
  case True
  then have "ex' = ex" using assms(1) by (simp add: fork_prefixes_def)
  moreover have "heap ex = (heap ex)(t \<mapsto> tst\<lparr> prefixes := prefixes tst \<rparr>,
                                      f \<mapsto> fSt\<lparr> prefixes := prefixes fSt \<rparr>)"
    using assms(2,3) by (intro ext) simp
  ultimately show ?thesis by metis
next
  case False
  then obtain pA pB where "ex' = setState (setState ex t (tst\<lparr> prefixes := pA \<rparr>)) f (fSt\<lparr> prefixes := pB \<rparr>)"
    using assms
    by (auto simp: fork_prefixes_def removeFalsePrefixes_def removeTruePrefixes_def Let_def
        setState_def split: sum.splits)
  then show ?thesis by (auto simp: setState_def)
qed

lemma fork_unknown_children:
  assumes run: "fork_unknown ex s c False = Inr ((A, B), ex')"
    and s: "heap ex s = Some st"
    and fresh: "\<forall>n \<ge> heapNext ex. heap ex n = None"
  shows "A = Some s \<and> B = Some (heapNext ex) \<and>
         (\<exists>stA stB. heap ex' s = Some stA \<and> heap ex' (heapNext ex) = Some stB \<and>
            childOf c (CHR ''0'') st stA \<and> childOf (createIsZero c) (CHR ''1'') st stB)"
proof -
  define N where "N = heapNext ex"
  have sN: "s \<noteq> N" using s fresh unfolding N_def by auto
  define ex1 where "ex1 = ex\<lparr> forks := Suc (forks ex), heap := (heap ex)(N \<mapsto> st),
                              heapNext := Suc N \<rparr>"
  have b: "branch (ex\<lparr> forks := Suc (forks ex) \<rparr>) s = Inr (N, ex1)"
    using s by (simp add: branch_def ex1_def N_def)
  from run b obtain ex2 ex3 ex4 where
    n: "noteNonRecovery ex1 N = Inr ex2"
    and p: "fork_prefixes (ex2\<lparr> addedStates := addedStates ex2 @ [N] \<rparr>) s N = Inr ex3"
    and r: "fork_record ex3 s N False = Inr ex4"
    and k: "fork_constrain ex4 s N s N c = Inr ex'"
    and AB: "A = Some s" "B = Some N"
    by (auto simp: fork_unknown_def split: sum.splits)
  have h2: "heap ex2 = heap ex1" "heapNext ex2 = heapNext ex1"
    using n by (auto simp: noteNonRecovery_def split: option.splits if_splits)
  have hs: "heap (ex2\<lparr> addedStates := addedStates ex2 @ [N] \<rparr>) s = Some st"
    and hn: "heap (ex2\<lparr> addedStates := addedStates ex2 @ [N] \<rparr>) N = Some st"
    using s sN by (simp_all add: h2 ex1_def)
  from fork_prefixes_children [OF p hs hn sN] obtain pA pB where
    h3: "heap ex3 = (heap ex1)(s \<mapsto> st\<lparr> prefixes := pA \<rparr>, N \<mapsto> st\<lparr> prefixes := pB \<rparr>)"
    "heapNext ex3 = Suc N"
    by (auto simp: h2 ex1_def)
  define stT where "stT = st\<lparr> prefixes := pA, depth := Suc (depth st),
                             branchHist := branchHist st @ [CHR ''0''] \<rparr>"
  define stF where "stF = st\<lparr> prefixes := pB, depth := Suc (depth st),
                             branchHist := branchHist st @ [CHR ''1''] \<rparr>"
  have h4: "heap ex4 = (heap ex3)(s \<mapsto> stT, N \<mapsto> stF)" "heapNext ex4 = Suc N"
    using r h3 sN
    by (auto simp: fork_record_def recordBranch_def setState_def stT_def stF_def
        split: sum.splits option.splits)
  have t4: "heap ex4 s = Some stT" and f4: "heap ex4 N = Some stF"
    using sN by (simp_all add: h4)
  have fresh4: "\<forall>n \<ge> heapNext ex4. heap ex4 n = None"
    using fresh s sN by (auto simp: h4 h3 ex1_def N_def)
  from fork_constrain_children [OF k t4 f4 sN fresh4] obtain stA stB where
    "heap ex' s = Some stA" "heap ex' N = Some stB"
    "depth stA = depth stT" "branchHist stA = branchHist stT"
    "prefix (constraints stT @ [c]) (constraints stA)"
    "depth stB = depth stF" "branchHist stB = branchHist stF"
    "prefix (constraints stF @ [createIsZero c]) (constraints stB)"
    by blast
  then have "heap ex' s = Some stA \<and> heap ex' N = Some stB \<and>
            childOf c (CHR ''0'') st stA \<and> childOf (createIsZero c) (CHR ''1'') st stB"
    by (simp add: childOf_def stT_def stF_def)
  then show ?thesis using AB unfolding N_def by blast
qed

lemma fork_replay_known:
  "fork_replay ex s c r0 path = Inr (res, ex1) \<Longrightarrow> res \<noteq> VUnknown"
  by (auto simp: fork_replay_def Let_def split: if_splits sum.splits)

lemma fork_two_children:
  assumes run: "fork ex s c False sr b = Inr ((Some A, Some B), ex')"
    and s: "heap ex s = Some st"
    and solver: "coreId ex = 0 \<or> \<not> shallIRange st"
  shows "sr = Some VUnknown \<and> fork_unknown ex s c False = Inr ((Some A, Some B), ex')"
proof -
  have v: "fork_verdict ex st False sr = Inr (map_option (\<lambda>r. (r, False)) sr)"
    using solver by (auto simp: fork_verdict_def)
  obtain r0 where sr: "sr = Some r0"
    using run s v by (cases sr) (auto simp: fork_def split: sum.splits)
  from run s v sr obtain res ex1 where
    adj: "fork_adjust ex s c False r0 b = Inr (res, ex1)"
    and rest: "(if res = VTrue then fork_true ex1 s c False False
                else if res = VFalse then fork_false ex1 s c False False
                else fork_unknown ex1 s c False) = Inr ((Some A, Some B), ex')"
    by (auto simp: fork_def split: sum.splits)
  have nt: "res \<noteq> VTrue"
    using rest by (auto simp: fork_true_def split: sum.splits)
  have nf: "res \<noteq> VFalse"
    using rest nt by (auto simp: fork_false_def split: sum.splits)
  from nt nf have ru: "res = VUnknown" by (cases res) auto
  have "r0 = VUnknown \<and> ex1 = ex"
  proof (cases "replayPath ex \<noteq> None")
    case True
    then have "fork_replay ex s c r0 (the (replayPath ex)) = Inr (res, ex1)"
      using adj s by (simp add: fork_adjust_def)
    then show ?thesis using fork_replay_known ru by blast
  next
    case False
    then show ?thesis using adj s ru
      by (auto simp: fork_adjust_def fork_inhibit_def split: if_splits sum.splits)
  qed
  then show ?thesis using sr rest ru by simp
qed

lemma fork_unknown_returns:
  assumes s: "heap ex s = Some st"
    and solver: "coreId ex = 0 \<or> \<not> shallIRange st"
    and env: "replayPath ex = None" "\<not> replayKTest ex" "\<not> forkInhibited ex st"
    and fresh: "\<forall>n \<ge> heapNext ex. heap ex n = None"
    and c: "\<not> isConstantExpr c"
    and served: "isRecoveryState st \<Longrightarrow> wellServed (heap ex) s ds"
    and buf: "coreId ex \<noteq> 0 \<Longrightarrow> \<forall>p \<in> set (prefixes st). depth st < length (fst p)"
  shows "\<exists>ex'. fork ex s c False (Some VUnknown) b = Inr ((Some s, Some (heapNext ex)), ex')"
proof -
  have "fork ex s c False (Some VUnknown) b = fork_unknown ex s c False"
    using s solver env
    by (auto simp: fork_def fork_verdict_def fork_adjust_def fork_inhibit_def)
  then show ?thesis using fork_unknown_ok [OF s fresh c served buf refl refl] by auto
qed

text \<open>
  Claim C7. Take a fork that is not internal and whose verdict comes from the solver
  (on the master, or on a worker whose state is past its prefixes). Whenever it returns
  a true child \<open>A\<close> and a false child \<open>B\<close>, the solver has answered unknown, \<open>A\<close> is
  the state that was forked and \<open>B\<close> the copy at the next free pointer, the constraints
  of \<open>A\<close> are those of the state before the fork followed by the condition (and by
  what the propagation along a dependent chain may add), those of \<open>B\<close> the same with the
  negated condition, the branch history of \<open>A\<close> is the history before the fork with
  \<^verbatim>\<open>'0'\<close> appended, that of \<open>B\<close> with \<^verbatim>\<open>'1'\<close>, and both depths are one more than
  before.

  Such a fork does return both children when the solver answers unknown, the condition
  is not a constant, nothing replays or inhibits forking, the prefixes of a worker can be
  read at the depth, and a recovery state is well served.
\<close>

theorem solver_fork_children:
  assumes s: "heap ex s = Some st"
    and fresh: "\<forall>n \<ge> heapNext ex. heap ex n = None"
    and solver: "coreId ex = 0 \<or> \<not> shallIRange st"
  shows
    "(fork ex s c False sr b = Inr ((Some A, Some B), ex') \<longrightarrow>
        sr = Some VUnknown \<and> A = s \<and> B = heapNext ex \<and>
        (\<exists>stA stB. heap ex' A = Some stA \<and> heap ex' B = Some stB \<and>
           childOf c (CHR ''0'') st stA \<and> childOf (createIsZero c) (CHR ''1'') st stB)) \<and>
     (\<not> isConstantExpr c \<and> replayPath ex = None \<and> \<not> replayKTest ex \<and>
      \<not> forkInhibited ex st \<and>
      (coreId ex \<noteq> 0 \<longrightarrow> (\<forall>p \<in> set (prefixes st). depth st < length (fst p))) \<and>
      (isRecoveryState st \<longrightarrow> wellServed (heap ex) s ds) \<longrightarrow>
        (\<exists>ex1. fork ex s c False (Some VUnknown) b = Inr ((Some s, Some (heapNext ex)), ex1)))"
proof (rule conjI; rule impI)
  assume run: "fork ex s c False sr b = Inr ((Some A, Some B), ex')"
  from fork_two_children [OF run s solver] have sr: "sr = Some VUnknown"
    and u: "fork_unknown ex s c False = Inr ((Some A, Some B), ex')" by simp_all
  from fork_unknown_children [OF u s fresh]
  show "sr = Some VUnknown \<and> A = s \<and> B = heapNext ex \<and>
        (\<exists>stA stB. heap ex' A = Some stA \<and> heap ex' B = Some stB \<and>
           childOf c (CHR ''0'') st stA \<and> childOf (createIsZero c) (CHR ''1'') st stB)"
    using sr by auto
next
  assume a: "\<not> isConstantExpr c \<and> replayPath ex = None \<and> \<not> replayKTest ex \<and>
      \<not> forkInhibited ex st \<and>
      (coreId ex \<noteq> 0 \<longrightarrow> (\<forall>p \<in> set (prefixes st). depth st < length (fst p))) \<and>
      (isRecoveryState st \<longrightarrow> wellServed (heap ex) s ds)"
  then have c: "\<not> isConstantExpr c" and env: "replayPath ex = None" "\<not> replayKTest ex"
    "\<not> forkInhibited ex st"
    and buf: "coreId ex \<noteq> 0 \<Longrightarrow> \<forall>p \<in> set (prefixes st). depth st < length (fst p)"
    and served: "isRecoveryState st \<Longrightarrow> wellServed (heap ex) s ds"
    by simp_all
  show "\<exists>ex1. fork ex s c False (Some VUnknown) b = Inr ((Some s, Some (heapNext ex)), ex1)"
    using fork_unknown_returns [OF s solver env fresh c served buf] by simp
qed

theorem solver_fork_children_witness:
  "(\<exists>ex' stA stB.
      fork exampleMaster 1 (SymbolicExpr 0) False (Some VUnknown) False
        = Inr ((Some 1, Some 2), ex') \<and>
      heap ex' 1 = Some stA \<and> heap ex' 2 = Some stB \<and>
      prefix [SymbolicExpr 0] (constraints stA) \<and>
      prefix [IsZeroExpr (SymbolicExpr 0)] (constraints stB) \<and>
      branchHist stA = ''0'' \<and> branchHist stB = ''1'' \<and> depth stA = 1 \<and> depth stB = 1) \<and>
   (\<exists>ex' stA stB.
      fork exampleServed 2 (SymbolicExpr 0) False (Some VUnknown) False
        = Inr ((Some 2, Some 3), ex') \<and>
      heap ex' 2 = Some stA \<and> heap ex' 3 = Some stB \<and>
      prefix [SymbolicExpr 0] (constraints stA) \<and>
      prefix [IsZeroExpr (SymbolicExpr 0)] (constraints stB) \<and>
      branchHist stA = ''0'' \<and> branchHist stB = ''1'' \<and> depth stA = 1 \<and> depth stB = 1) \<and>
   (\<exists>ex' stA stB.
      fork (rangingWorker []) 1 (SymbolicExpr 0) False (Some VUnknown) False
        = Inr ((Some 1, Some 2), ex') \<and>
      heap ex' 1 = Some stA \<and> heap ex' 2 = Some stB \<and>
      prefix [SymbolicExpr 0] (constraints stA) \<and>
      prefix [IsZeroExpr (SymbolicExpr 0)] (constraints stB) \<and>
      branchHist stA = ''0'' \<and> branchHist stB = ''1'' \<and> depth stA = 1 \<and> depth stB = 1)"
proof -
  define c where "c = SymbolicExpr 0"
  have cn: "\<not> isConstantExpr c" "createIsZero c = IsZeroExpr (SymbolicExpr 0)"
    by (simp_all add: c_def)
  have b0: "constraints blankState = []" "branchHist blankState = []" "depth blankState = 0"
    by (simp_all add: blankState_def)
  have m: "heap exampleMaster 1 = Some blankState"
    "\<forall>n \<ge> heapNext exampleMaster. heap exampleMaster n = None"
    "coreId exampleMaster = 0 \<or> \<not> shallIRange blankState"
    "replayPath exampleMaster = None" "\<not> replayKTest exampleMaster"
    "\<not> forkInhibited exampleMaster blankState" "\<not> isRecoveryState blankState"
    "heapNext exampleMaster = 2" "coreId exampleMaster = 0"
    by (simp_all add: exampleMaster_def blankExecutor_def blankState_def forkInhibited_def
        isRecoveryState_def NORMAL_STATE_def)
  note th1 = solver_fork_children [OF m(1,2,3)]
  from th1 [where c = c and sr = "Some VUnknown" and b = False and ds = "[]",
      THEN conjunct2] cn m(4-9)
  obtain ex1 where
    r1: "fork exampleMaster 1 c False (Some VUnknown) False = Inr ((Some 1, Some 2), ex1)"
    by auto
  from th1 [where c = c and sr = "Some VUnknown" and b = False and A = 1 and B = 2
      and ex' = ex1, THEN conjunct1] r1
  have t1: "\<exists>ex' stA stB.
      fork exampleMaster 1 c False (Some VUnknown) False = Inr ((Some 1, Some 2), ex') \<and>
      heap ex' 1 = Some stA \<and> heap ex' 2 = Some stB \<and>
      prefix [c] (constraints stA) \<and> prefix [createIsZero c] (constraints stB) \<and>
      branchHist stA = ''0'' \<and> branchHist stB = ''1'' \<and> depth stA = 1 \<and> depth stB = 1"
    by (auto simp: childOf_def b0)
  define rst where "rst = blankState\<lparr> stateType := RECOVERY_STATE, dependentState := Some 1,
                                        originatingState := Some 1 \<rparr>"
  have r0: "constraints rst = []" "branchHist rst = []" "depth rst = 0"
    by (simp_all add: rst_def blankState_def)
  have v: "heap exampleServed 2 = Some rst"
    "\<forall>n \<ge> heapNext exampleServed. heap exampleServed n = None"
    "coreId exampleServed = 0 \<or> \<not> shallIRange rst"
    "replayPath exampleServed = None" "\<not> replayKTest exampleServed"
    "\<not> forkInhibited exampleServed rst" "isRecoveryState rst"
    "heapNext exampleServed = 3" "coreId exampleServed = 0"
    by (simp_all add: exampleServed_def blankExecutor_def blankState_def forkInhibited_def
        isRecoveryState_def RECOVERY_STATE_def rst_def)
  have w: "wellServed (heap exampleServed) 2 [1]"
    by (simp add: wellServed_def exampleServed_def blankExecutor_def blankState_def
        isRecoveryState_def isNormalState_def isSuspended_def RECOVERY_STATE_def NORMAL_STATE_def)
  note th2 = solver_fork_children [OF v(1,2,3)]
  from th2 [where c = c and ds = "[1]" and sr = "Some VUnknown" and b = False,
      THEN conjunct2] cn v(4-9) w
  obtain ex2 where
    r2: "fork exampleServed 2 c False (Some VUnknown) False = Inr ((Some 2, Some 3), ex2)"
    by auto
  from th2 [where c = c and sr = "Some VUnknown" and b = False and A = 2 and B = 3
      and ex' = ex2, THEN conjunct1] r2
  have t2: "\<exists>ex' stA stB.
      fork exampleServed 2 c False (Some VUnknown) False = Inr ((Some 2, Some 3), ex') \<and>
      heap ex' 2 = Some stA \<and> heap ex' 3 = Some stB \<and>
      prefix [c] (constraints stA) \<and> prefix [createIsZero c] (constraints stB) \<and>
      branchHist stA = ''0'' \<and> branchHist stB = ''1'' \<and> depth stA = 1 \<and> depth stB = 1"
    by (auto simp: childOf_def r0)
  define wst where "wst = blankState\<lparr> prefixes := [] \<rparr>"
  have w0: "constraints wst = []" "branchHist wst = []" "depth wst = 0" "prefixes wst = []"
    by (simp_all add: wst_def blankState_def)
  have q: "heap (rangingWorker []) 1 = Some wst"
    "\<forall>n \<ge> heapNext (rangingWorker []). heap (rangingWorker []) n = None"
    "coreId (rangingWorker []) = 0 \<or> \<not> shallIRange wst"
    "replayPath (rangingWorker []) = None" "\<not> replayKTest (rangingWorker [])"
    "\<not> forkInhibited (rangingWorker []) wst" "\<not> isRecoveryState wst"
    "heapNext (rangingWorker []) = 2"
    by (simp_all add: rangingWorker_def blankExecutor_def blankState_def forkInhibited_def
        isRecoveryState_def NORMAL_STATE_def wst_def shallIRange_def)
  note th3 = solver_fork_children [OF q(1,2,3)]
  from th3 [where c = c and ds = "[]" and sr = "Some VUnknown" and b = False,
      THEN conjunct2] cn q(4-8) w0
  obtain ex3 where
    r3: "fork (rangingWorker []) 1 c False (Some VUnknown) False = Inr ((Some 1, Some 2), ex3)"
    by auto
  from th3 [where c = c and sr = "Some VUnknown" and b = False and A = 1 and B = 2
      and ex' = ex3, THEN conjunct1] r3
  have t3: "\<exists>ex' stA stB.
      fork (rangingWorker []) 1 c False (Some VUnknown) False = Inr ((Some 1, Some 2), ex') \<and>
      heap ex' 1 = Some stA \<and> heap ex' 2 = Some stB \<and>
      prefix [c] (constraints stA) \<and> prefix [createIsZero c] (constraints stB) \<and>
      branchHist stA = ''0'' \<and> branchHist stB = ''1'' \<and> depth stA = 1 \<and> depth stB = 1"
    by (auto simp: childOf_def w0)
  show ?thesis using t1 t2 t3 unfolding cn(2) unfolding c_def by blast
qed

end
